theory Spec2Isabelle
  imports Main
begin

section \<open>NERD: the Naemon Event Radio Dispatcher (src/naemon/nerd.c)\<close>

text \<open>
  A shallow embedding of the subscriber service of nerd.c. The C globals
  (\<open>channels\<close>, \<open>num_channels\<close>) and everything the code does to its collaborators
  (event broker, I/O broker, sockets, log) are fields of one state record that every
  function takes and returns. A \<open>struct nerd_channel *\<close> is the index of the channel
  in \<open>channels\<close>; a C string is the list of its characters before the terminating NUL;
  a function pointer is a number identifying the function.
\<close>

subsection \<open>Data\<close>

record nerd_subscription =
  sd :: int
  chan :: nat
  format :: "string option"

text \<open>
  \<open>struct nerd_channel\<close>. \<open>callbacks\<close> holds the first \<open>num_callbacks\<close> entries of
  the C array, so \<open>num_callbacks\<close> is its length; \<open>subscriptions\<close> is the objectlist,
  head first (the empty list is the NULL pointer). The fields \<open>id\<close> and
  \<open>required_options\<close> are left out: none of the functions below reads or writes them.
\<close>

record nerd_channel =
  name :: string
  description :: string
  callbacks :: "nat list"
  handler :: nat
  subscriptions :: "nerd_subscription list"

datatype neb_call = Neb_register nat nat | Neb_deregister nat nat

datatype log_msg =
    Failed_to_register nat string int
  | Cancelled_subscriptions int string int

text \<open>
  The program state: the channel array, then what the collaborators have seen.
  \<open>neb_table\<close> is the event broker's table of registered (callback type, handler) pairs
  and \<open>neb_calls\<close> every call made to the broker; \<open>iob_closed\<close> lists the descriptors
  passed to \<open>iobroker_close\<close>; \<open>sends\<close> lists the \<open>send\<close> calls (descriptor, buffer,
  length); \<open>nsock_out\<close> lists what \<open>nsock_printf\<close> wrote, per call; \<open>logs\<close> is the log.
\<close>

record nerd_state =
  channels :: "nerd_channel list"
  neb_table :: "(nat \<times> nat) list"
  neb_calls :: "neb_call list"
  iob_closed :: "int list"
  sends :: "(int \<times> string \<times> nat) list"
  nsock_out :: "(int \<times> string) list"
  logs :: "log_msg list"

subsection \<open>Collaborators\<close>

text \<open>
  Modelled from the spec: the host event broker (\<open>neb_register_callback\<close>,
  \<open>neb_deregister_callback\<close>) is not part of nerd.c. The spec gives
  \<open>registerCallback(eventKind, handlerFn) \<rightarrow> status\<close> and
  \<open>deregisterCallback(eventKind, handlerFn)\<close>. The status of a registration is the
  parameter \<open>rr\<close> (0 is success); a successful registration adds the pair to the
  broker's table, a deregistration removes one entry for the pair if there is one.
\<close>

definition neb_register_callback ::
  "(nat \<Rightarrow> nat \<Rightarrow> int) \<Rightarrow> nat \<Rightarrow> nat \<Rightarrow> nerd_state \<Rightarrow> int \<times> nerd_state" where
  "neb_register_callback rr cb h st =
     (let result = rr cb h;
          st1 = st\<lparr>neb_calls := neb_calls st @ [Neb_register cb h]\<rparr>
      in (result, if result = 0 then st1\<lparr>neb_table := neb_table st1 @ [(cb, h)]\<rparr> else st1))"

definition neb_deregister_callback :: "nat \<Rightarrow> nat \<Rightarrow> nerd_state \<Rightarrow> nerd_state" where
  "neb_deregister_callback cb h st =
     st\<lparr>neb_calls := neb_calls st @ [Neb_deregister cb h],
        neb_table := remove1 (cb, h) (neb_table st)\<rparr>"

definition nm_log :: "log_msg \<Rightarrow> nerd_state \<Rightarrow> nerd_state" where
  "nm_log m st = st\<lparr>logs := logs st @ [m]\<rparr>"

definition iobroker_close :: "int \<Rightarrow> nerd_state \<Rightarrow> nerd_state" where
  "iobroker_close fd st = st\<lparr>iob_closed := iob_closed st @ [fd]\<rparr>"

definition nsock_printf :: "int \<Rightarrow> string \<Rightarrow> nerd_state \<Rightarrow> nerd_state" where
  "nsock_printf fd s st = st\<lparr>nsock_out := nsock_out st @ [(fd, s)]\<rparr>"

definition nsock_printf_nul :: "int \<Rightarrow> string \<Rightarrow> nerd_state \<Rightarrow> nerd_state" where
  "nsock_printf_nul fd s st = nsock_printf fd (s @ [CHR 0x00]) st"

text \<open>\<open>EAGAIN\<close> of errno.h, with its Linux value.\<close>

definition EAGAIN :: int where
  "EAGAIN = 11"

text \<open>
  \<open>strchr\<close>: the offset of the first occurrence of the character, \<open>None\<close> for NULL.
\<close>

fun strchr :: "string \<Rightarrow> char \<Rightarrow> nat option" where
  "strchr [] c = None"
| "strchr (x # xs) c = (if x = c then Some 0 else map_option Suc (strchr xs c))"

text \<open>The conversion \<open>%-15s\<close> of printf: left-justified in a field of at least 15.\<close>

definition printf_minus_15s :: "string \<Rightarrow> string" where
  "printf_minus_15s s = s @ replicate (15 - length s) CHR '' ''"

subsection \<open>Channel lookup\<close>

fun find_channel_from :: "nat \<Rightarrow> string \<Rightarrow> nerd_channel list \<Rightarrow> nat option" where
  "find_channel_from i nm [] = None"
| "find_channel_from i nm (ch # rest) =
     (if nm = name ch then Some i else find_channel_from (Suc i) nm rest)"

definition find_channel :: "string \<Rightarrow> nerd_state \<Rightarrow> nat option" where
  "find_channel nm st = find_channel_from 0 nm (channels st)"

definition nerd_get_channel :: "nat \<Rightarrow> nerd_state \<Rightarrow> nat option" where
  "nerd_get_channel chan_id st =
     (if chan_id \<ge> length (channels st) then None else Some chan_id)"

subsection \<open>Activation\<close>

fun register_loop ::
  "(nat \<Rightarrow> nat \<Rightarrow> int) \<Rightarrow> nat \<Rightarrow> nat list \<Rightarrow> nerd_state \<Rightarrow> int \<times> nerd_state" where
  "register_loop rr ch [] st = (0, st)"
| "register_loop rr ch (cb # cbs) st =
     (let (result, st1) = neb_register_callback rr cb (handler (channels st ! ch)) st
      in if result \<noteq> 0
         then (-1, nm_log (Failed_to_register cb (name (channels st1 ! ch)) result) st1)
         else register_loop rr ch cbs st1)"

definition nerd_register_channel_callbacks ::
  "(nat \<Rightarrow> nat \<Rightarrow> int) \<Rightarrow> nat \<Rightarrow> nerd_state \<Rightarrow> int \<times> nerd_state" where
  "nerd_register_channel_callbacks rr ch st =
     register_loop rr ch (callbacks (channels st ! ch)) st"

fun deregister_loop :: "nat \<Rightarrow> nat list \<Rightarrow> nerd_state \<Rightarrow> nerd_state" where
  "deregister_loop ch [] st = st"
| "deregister_loop ch (cb # cbs) st =
     deregister_loop ch cbs (neb_deregister_callback cb (handler (channels st ! ch)) st)"

definition nerd_deregister_channel_callbacks :: "nat \<Rightarrow> nerd_state \<Rightarrow> int \<times> nerd_state" where
  "nerd_deregister_channel_callbacks ch st =
     (0, deregister_loop ch (callbacks (channels st ! ch)) st)"

subsection \<open>Subscription lists\<close>

definition set_subscriptions :: "nat \<Rightarrow> nerd_subscription list \<Rightarrow> nerd_state \<Rightarrow> nerd_state" where
  "set_subscriptions ch l st =
     st\<lparr>channels := (channels st)[ch := (channels st ! ch)\<lparr>subscriptions := l\<rparr>]\<rparr>"

definition prepend_object_to_objectlist ::
  "nat \<Rightarrow> nerd_subscription \<Rightarrow> nerd_state \<Rightarrow> nerd_state" where
  "prepend_object_to_objectlist ch subscr st =
     set_subscriptions ch (subscr # subscriptions (channels st ! ch)) st"

definition subscribe ::
  "(nat \<Rightarrow> nat \<Rightarrow> int) \<Rightarrow> int \<Rightarrow> nat \<Rightarrow> string option \<Rightarrow> nerd_state \<Rightarrow> int \<times> nerd_state" where
  "subscribe rr fd ch fmt st =
     (let subscr = \<lparr>sd = fd, chan = ch, format = fmt\<rparr>;
          st1 = (if subscriptions (channels st ! ch) = []
                 then snd (nerd_register_channel_callbacks rr ch st) else st)
      in (0, prepend_object_to_objectlist ch subscr st1))"

text \<open>
  The removal loops walk the objectlist with \<open>list\<close> and \<open>prev\<close>. In the model
  \<open>kept\<close> is the part of the channel's list up to and including \<open>prev\<close> (empty while
  \<open>prev\<close> is NULL) and the last argument is the part from \<open>list\<close> on: the channel's list
  is \<open>kept\<close> followed by it. Unlinking the node at \<open>list\<close> (by \<open>chan->subscriptions = next\<close>
  when \<open>prev\<close> is NULL, by \<open>prev->next = next\<close> otherwise) leaves \<open>kept\<close> followed by
  \<open>next\<close>.
\<close>

fun cancel_loop ::
  "int \<Rightarrow> nerd_subscription list \<Rightarrow> int \<Rightarrow> nerd_subscription list
     \<Rightarrow> nerd_subscription list \<times> int" where
  "cancel_loop fd kept cancelled [] = (kept, cancelled)"
| "cancel_loop fd kept cancelled (subscr # next) =
     (if sd subscr = fd then cancel_loop fd kept (cancelled + 1) next
      else cancel_loop fd (kept @ [subscr]) cancelled next)"

definition cancel_channel_subscription ::
  "nat option \<Rightarrow> int \<Rightarrow> nerd_state \<Rightarrow> int \<times> nerd_state" where
  "cancel_channel_subscription chp fd st =
     (case chp of
        None \<Rightarrow> (-1, st)
      | Some ch \<Rightarrow>
          (let (l, cancelled) = cancel_loop fd [] 0 (subscriptions (channels st ! ch));
               st1 = set_subscriptions ch l st;
               st2 = (if cancelled \<noteq> 0
                      then nm_log (Cancelled_subscriptions cancelled (name (channels st1 ! ch)) fd) st1
                      else st1);
               st3 = (if subscriptions (channels st2 ! ch) = []
                      then snd (nerd_deregister_channel_callbacks ch st2) else st2)
           in (0, st3)))"

fun unsubscribe_loop ::
  "int \<Rightarrow> nerd_subscription list \<Rightarrow> nerd_subscription list \<Rightarrow> nerd_subscription list" where
  "unsubscribe_loop fd kept [] = kept"
| "unsubscribe_loop fd kept (subscr # next) =
     (if sd subscr = fd then unsubscribe_loop fd kept next
      else unsubscribe_loop fd (kept @ [subscr]) next)"

definition unsubscribe :: "int \<Rightarrow> nat \<Rightarrow> nerd_state \<Rightarrow> int \<times> nerd_state" where
  "unsubscribe fd ch st =
     (let st1 = set_subscriptions ch (unsubscribe_loop fd [] (subscriptions (channels st ! ch))) st;
          st2 = (if subscriptions (channels st1 ! ch) = []
                 then snd (nerd_deregister_channel_callbacks ch st1) else st1)
      in (0, st2))"

fun cancel_subscriber_loop :: "int \<Rightarrow> nat list \<Rightarrow> nerd_state \<Rightarrow> nerd_state" where
  "cancel_subscriber_loop fd [] st = st"
| "cancel_subscriber_loop fd (i # is) st =
     cancel_subscriber_loop fd is (snd (cancel_channel_subscription (Some i) fd st))"

definition nerd_cancel_subscriber :: "int \<Rightarrow> nerd_state \<Rightarrow> int \<times> nerd_state" where
  "nerd_cancel_subscriber fd st =
     (let st1 = cancel_subscriber_loop fd [0 ..< length (channels st)] st
      in (0, iobroker_close fd st1))"

subsection \<open>Broadcast\<close>

text \<open>
  \<open>send\<close> is the transport: \<open>tx n fd\<close> is the pair (return value, errno) of the
  \<open>n\<close>-th \<open>send\<close> of one broadcast, made on descriptor \<open>fd\<close>.
\<close>

fun broadcast_loop ::
  "(nat \<Rightarrow> int \<Rightarrow> int \<times> int) \<Rightarrow> string \<Rightarrow> nat \<Rightarrow> nat \<Rightarrow> nerd_subscription list
     \<Rightarrow> nerd_state \<Rightarrow> int \<times> nerd_state" where
  "broadcast_loop tx buf len n [] st = (0, st)"
| "broadcast_loop tx buf len n (subscr # next) st =
     (let (result, errno) = tx n (sd subscr);
          st1 = st\<lparr>sends := sends st @ [(sd subscr, buf, len)]\<rparr>
      in if result < 0
         then (if errno = EAGAIN then (0, st1)
               else (500, snd (nerd_cancel_subscriber (sd subscr) st1)))
         else broadcast_loop tx buf len (Suc n) next st1)"

definition nerd_broadcast ::
  "(nat \<Rightarrow> int \<Rightarrow> int \<times> int) \<Rightarrow> nat \<Rightarrow> string \<Rightarrow> nat \<Rightarrow> nerd_state \<Rightarrow> int \<times> nerd_state" where
  "nerd_broadcast tx chan_id buf len st =
     (case nerd_get_channel chan_id st of
        None \<Rightarrow> (-1, st)
      | Some ch \<Rightarrow> broadcast_loop tx buf len 0 (subscriptions (channels st ! ch)) st)"

subsection \<open>The query handler\<close>

definition NERD_SUBSCRIBE :: nat where
  "NERD_SUBSCRIBE = 0"

definition NERD_UNSUBSCRIBE :: nat where
  "NERD_UNSUBSCRIBE = 1"

definition help_text :: string where
  "help_text =
     ''Manage subscriptions to NERD channels.\<newline>'' @
     ''Valid commands:\<newline>'' @
     ''  list                      list available channels\<newline>'' @
     ''  subscribe <channel>       subscribe to a channel\<newline>'' @
     ''  unsubscribe <channel>     unsubscribe to a channel\<newline>''"

fun list_loop :: "int \<Rightarrow> nerd_channel list \<Rightarrow> nerd_state \<Rightarrow> nerd_state" where
  "list_loop fd [] st = st"
| "list_loop fd (ch # rest) st =
     list_loop fd rest
       (nsock_printf fd (printf_minus_15s (name ch) @ '' '' @ description ch @ ''\<newline>'') st)"

definition nerd_qh_handler ::
  "(nat \<Rightarrow> nat \<Rightarrow> int) \<Rightarrow> int \<Rightarrow> string \<Rightarrow> nat \<Rightarrow> nerd_state \<Rightarrow> int \<times> nerd_state" where
  "nerd_qh_handler rr fd request len st =
     (if request = [] \<or> request = ''help'' then (0, nsock_printf_nul fd help_text st)
      else if request = ''list''
      then (0, nsock_printf fd [CHR 0x00] (list_loop fd (channels st) st))
      else
        (case strchr request CHR '' '' of
           None \<Rightarrow> (400, st)
         | Some k \<Rightarrow>
             (let verb = take k request; chan_name = drop (Suc k) request
              in case (if verb = ''subscribe'' then Some NERD_SUBSCRIBE
                       else if verb = ''unsubscribe'' then Some NERD_UNSUBSCRIBE
                       else None) of
                   None \<Rightarrow> (400, st)
                 | Some action \<Rightarrow>
                     (let (chan_name, fmt) =
                            (case strchr chan_name CHR '':'' of
                               None \<Rightarrow> (chan_name, None)
                             | Some j \<Rightarrow> (take j chan_name, Some (drop (Suc j) chan_name)))
                      in case find_channel chan_name st of
                           None \<Rightarrow> (400, st)
                         | Some ch \<Rightarrow>
                             if action = NERD_SUBSCRIBE then (0, snd (subscribe rr fd ch fmt st))
                             else (0, snd (unsubscribe fd ch st))))))"

subsection \<open>Vocabulary of the statements\<close>

text \<open>A channel with every subscription of descriptor \<open>fd\<close> taken out, the others in place.\<close>

definition without_sd :: "int \<Rightarrow> nerd_channel \<Rightarrow> nerd_channel" where
  "without_sd fd c = c\<lparr>subscriptions := filter (\<lambda>x. sd x \<noteq> fd) (subscriptions c)\<rparr>"

text \<open>The broker calls that deregister every declared callback of a channel.\<close>

definition deregister_calls :: "nerd_channel \<Rightarrow> neb_call list" where
  "deregister_calls c = map (\<lambda>cb. Neb_deregister cb (handler c)) (callbacks c)"

text \<open>The \<open>send\<close> calls, in order, for the subscriptions of a list.\<close>

definition send_calls :: "string \<Rightarrow> nat \<Rightarrow> nerd_subscription list \<Rightarrow> (int \<times> string \<times> nat) list" where
  "send_calls buf len l = map (\<lambda>x. (sd x, buf, len)) l"

text \<open>
  The subscriptions that a broadcast writes to: the list from its head, up to and
  including the first one whose write fails. \<open>n\<close> numbers the writes of the broadcast.
\<close>

fun reached :: "(nat \<Rightarrow> int \<Rightarrow> int \<times> int) \<Rightarrow> nat \<Rightarrow> nerd_subscription list
     \<Rightarrow> nerd_subscription list" where
  "reached tx n [] = []"
| "reached tx n (x # xs) = x # (if fst (tx n (sd x)) < 0 then [] else reached tx (Suc n) xs)"

text \<open>
  The log line of a cancellation on one channel: the number of subscriptions removed,
  the channel's name and the descriptor, written when that number is not zero.
\<close>

definition cancel_logs :: "int \<Rightarrow> nerd_channel \<Rightarrow> log_msg list" where
  "cancel_logs fd c =
     (let cancelled = int (length (filter (\<lambda>x. sd x = fd) (subscriptions c)))
      in if cancelled \<noteq> 0 then [Cancelled_subscriptions cancelled (name c) fd] else [])"

text \<open>
  The callbacks that the registration loop passes to the broker: those that register
  successfully up to the first failure, and the one that fails.
\<close>

definition attempted :: "(nat \<Rightarrow> nat \<Rightarrow> int) \<Rightarrow> nat \<Rightarrow> nat list \<Rightarrow> nat list" where
  "attempted rr h cbs =
     takeWhile (\<lambda>cb. rr cb h = 0) cbs @ take 1 (dropWhile (\<lambda>cb. rr cb h = 0) cbs)"

text \<open>
  The operations that change subscriber lists, and a run of them. An operation is in
  range when the channel it names is one of the \<open>n\<close> channels of the registry (the
  handler only calls \<open>subscribe\<close> and \<open>unsubscribe\<close> with a channel it has found).
\<close>

datatype nerd_op =
    Subscribe int nat "string option"
  | Unsubscribe int nat
  | Cancel_subscriber int

fun apply_op :: "(nat \<Rightarrow> nat \<Rightarrow> int) \<Rightarrow> nerd_op \<Rightarrow> nerd_state \<Rightarrow> nerd_state" where
  "apply_op rr (Subscribe fd ch fmt) st = snd (subscribe rr fd ch fmt st)"
| "apply_op rr (Unsubscribe fd ch) st = snd (unsubscribe fd ch st)"
| "apply_op rr (Cancel_subscriber fd) st = snd (nerd_cancel_subscriber fd st)"

fun run_ops :: "(nat \<Rightarrow> nat \<Rightarrow> int) \<Rightarrow> nerd_op list \<Rightarrow> nerd_state \<Rightarrow> nerd_state" where
  "run_ops rr [] st = st"
| "run_ops rr (op # ops) st = run_ops rr ops (apply_op rr op st)"

fun op_in_range :: "nat \<Rightarrow> nerd_op \<Rightarrow> bool" where
  "op_in_range n (Subscribe fd ch fmt) = (ch < n)"
| "op_in_range n (Unsubscribe fd ch) = (ch < n)"
| "op_in_range n (Cancel_subscriber fd) = True"

text \<open>
  The (callback type, handler) pairs that a channel declares, which are the keys of its
  registrations at the broker, and a registry in which no pair is declared by two channels.
\<close>

definition declared :: "nerd_channel \<Rightarrow> (nat \<times> nat) list" where
  "declared c = map (\<lambda>cb. (cb, handler c)) (callbacks c)"

fun pairwise_disjoint :: "'a list list \<Rightarrow> bool" where
  "pairwise_disjoint [] = True"
| "pairwise_disjoint (l # ls) = ((\<forall>m\<in>set ls. set l \<inter> set m = {}) \<and> pairwise_disjoint ls)"

definition registry_ok :: "nerd_state \<Rightarrow> bool" where
  "registry_ok st = pairwise_disjoint (map declared (channels st))"

text \<open>
  Activation, in three parts. \<open>activation_bound\<close>: a channel without subscriber has none
  of its callbacks in the broker's table, and no channel has a callback there more often
  than it declares it. \<open>activation_reached\<close>: a channel with a subscriber has each callback
  there as often as it declares it. \<open>activation_inv\<close> is both: each declared
  callback is in the table as often as declared when the channel has a subscriber, and
  not at all when it has none.
\<close>

definition activation_bound :: "nerd_state \<Rightarrow> bool" where
  "activation_bound st =
     (\<forall>c\<in>set (channels st). \<forall>cb\<in>set (callbacks c).
        count_list (neb_table st) (cb, handler c) \<le>
          (if subscriptions c = [] then 0 else count_list (callbacks c) cb))"

definition activation_reached :: "nerd_state \<Rightarrow> bool" where
  "activation_reached st =
     (\<forall>c\<in>set (channels st). \<forall>cb\<in>set (callbacks c).
        subscriptions c \<noteq> [] \<longrightarrow>
          count_list (callbacks c) cb \<le> count_list (neb_table st) (cb, handler c))"

definition activation_inv :: "nerd_state \<Rightarrow> bool" where
  "activation_inv st =
     (\<forall>c\<in>set (channels st). \<forall>cb\<in>set (callbacks c).
        count_list (neb_table st) (cb, handler c) =
          (if subscriptions c = [] then 0 else count_list (callbacks c) cb))"

text \<open>Removing the subscriptions of \<open>fd\<close> leaves the channel without subscriber.\<close>

definition leaves_empty :: "int \<Rightarrow> nerd_channel \<Rightarrow> bool" where
  "leaves_empty fd c = (\<forall>x\<in>set (subscriptions c). sd x = fd)"

text \<open>
  The broker calls of activation as the code has it. A \<open>subscribe\<close> that finds the list
  empty issues the registrations of the channel's callbacks, in order, up to and including
  the first that the broker refuses; an \<open>unsubscribe\<close> or a cancellation that leaves the
  list empty issues the deregistration of every callback of the channel; nothing else
  calls the broker.
\<close>

definition register_calls :: "(nat \<Rightarrow> nat \<Rightarrow> int) \<Rightarrow> nerd_channel \<Rightarrow> neb_call list" where
  "register_calls rr c =
     map (\<lambda>cb. Neb_register cb (handler c)) (attempted rr (handler c) (callbacks c))"

fun issued :: "(nat \<Rightarrow> nat \<Rightarrow> int) \<Rightarrow> nerd_op \<Rightarrow> nerd_state \<Rightarrow> neb_call list" where
  "issued rr (Subscribe fd ch fmt) st =
     (if subscriptions (channels st ! ch) = [] then register_calls rr (channels st ! ch) else [])"
| "issued rr (Unsubscribe fd ch) st =
     (if leaves_empty fd (channels st ! ch) then deregister_calls (channels st ! ch) else [])"
| "issued rr (Cancel_subscriber fd) st =
     concat (map (\<lambda>c. if leaves_empty fd c then deregister_calls c else []) (channels st))"

fun issued_all :: "(nat \<Rightarrow> nat \<Rightarrow> int) \<Rightarrow> nerd_op list \<Rightarrow> nerd_state \<Rightarrow> neb_call list" where
  "issued_all rr [] st = []"
| "issued_all rr (op # ops) st = issued rr op st @ issued_all rr ops (apply_op rr op st)"

text \<open>Every registration that a run of operations issues is accepted by the broker.\<close>

definition registrations_accepted ::
  "(nat \<Rightarrow> nat \<Rightarrow> int) \<Rightarrow> nerd_op list \<Rightarrow> nerd_state \<Rightarrow> bool" where
  "registrations_accepted rr ops st =
     (\<forall>call\<in>set (issued_all rr ops st).
        case call of Neb_register cb h \<Rightarrow> rr cb h = 0 | Neb_deregister cb h \<Rightarrow> True)"

subsection \<open>A registry to evaluate on\<close>

text \<open>
  The registry that \<open>nerd_init\<close> builds: the channels hostchecks and servicechecks, each with
  one callback type and its own handler, and no subscriber. The numbers 7, 6 (callback
  types) and 1, 2 (handlers) stand for values that nerd.c takes from its headers.
\<close>

definition init_state :: nerd_state where
  "init_state =
     \<lparr>channels =
        [\<lparr>name = ''hostchecks'', description = ''Host check results'',
          callbacks = [7], handler = 1, subscriptions = []\<rparr>,
         \<lparr>name = ''servicechecks'', description = ''Service check results'',
          callbacks = [6], handler = 2, subscriptions = []\<rparr>],
      neb_table = [], neb_calls = [], iob_closed = [], sends = [], nsock_out = [], logs = []\<rparr>"

definition subscr_of :: "int \<Rightarrow> nat \<Rightarrow> nerd_subscription" where
  "subscr_of fd ch = \<lparr>sd = fd, chan = ch, format = None\<rparr>"

text \<open>The same registry with descriptors 5, 6, 5 subscribed to hostchecks and 5 to servicechecks.\<close>

definition busy_state :: nerd_state where
  "busy_state =
     \<lparr>channels =
        [\<lparr>name = ''hostchecks'', description = ''Host check results'',
          callbacks = [7], handler = 1,
          subscriptions = [subscr_of 5 0, subscr_of 6 0, subscr_of 5 0]\<rparr>,
         \<lparr>name = ''servicechecks'', description = ''Service check results'',
          callbacks = [6], handler = 2, subscriptions = [subscr_of 5 1]\<rparr>],
      neb_table = [(7, 1), (6, 2)], neb_calls = [], iob_closed = [], sends = [],
      nsock_out = [], logs = []\<rparr>"

text \<open>A registry of one channel with two callback types, and no subscriber.\<close>

definition pair_state :: nerd_state where
  "pair_state =
     \<lparr>channels =
        [\<lparr>name = ''checks'', description = ''Check results'',
          callbacks = [6, 7], handler = 1, subscriptions = []\<rparr>],
      neb_table = [], neb_calls = [], iob_closed = [], sends = [], nsock_out = [], logs = []\<rparr>"

text \<open>A registry whose two channels share a handler and a callback type.\<close>

definition shared_state :: nerd_state where
  "shared_state =
     \<lparr>channels =
        [\<lparr>name = ''first'', description = ''Check results'',
          callbacks = [7], handler = 1, subscriptions = []\<rparr>,
         \<lparr>name = ''second'', description = ''Check results again'',
          callbacks = [7], handler = 1, subscriptions = []\<rparr>],
      neb_table = [], neb_calls = [], iob_closed = [], sends = [], nsock_out = [], logs = []\<rparr>"

section \<open>Properties\<close>

subsection \<open>The loops in closed form\<close>

lemma unsubscribe_loop_filter:
  "unsubscribe_loop fd kept l = kept @ filter (\<lambda>x. sd x \<noteq> fd) l"
  by (induction l arbitrary: kept) simp_all

lemma cancel_loop_filter:
  "cancel_loop fd kept n l =
     (kept @ filter (\<lambda>x. sd x \<noteq> fd) l, n + int (length (filter (\<lambda>x. sd x = fd) l)))"
  by (induction l arbitrary: kept n) simp_all

lemma deregister_loop_eq:
  "deregister_loop ch cbs st =
     st\<lparr>neb_calls := neb_calls st @ map (\<lambda>cb. Neb_deregister cb (handler (channels st ! ch))) cbs,
        neb_table := fold (\<lambda>cb. remove1 (cb, handler (channels st ! ch))) cbs (neb_table st)\<rparr>"
  by (induction cbs arbitrary: st) (simp_all add: neb_deregister_callback_def)

lemma register_loop_ok:
  "\<forall>cb\<in>set cbs. rr cb (handler (channels st ! ch)) = 0 \<Longrightarrow>
   register_loop rr ch cbs st =
     (0, st\<lparr>neb_calls := neb_calls st @ map (\<lambda>cb. Neb_register cb (handler (channels st ! ch))) cbs,
           neb_table := neb_table st @ map (\<lambda>cb. (cb, handler (channels st ! ch))) cbs\<rparr>)"
  by (induction cbs arbitrary: st) (simp_all add: neb_register_callback_def)

lemma set_subscriptions_nth:
  "ch < length (channels st) \<Longrightarrow>
   subscriptions (channels (set_subscriptions ch l st) ! ch) = l"
  by (simp add: set_subscriptions_def)

lemma unsubscribe_eq:
  assumes "ch < length (channels st)"
  shows "unsubscribe fd ch st =
     (let l = filter (\<lambda>x. sd x \<noteq> fd) (subscriptions (channels st ! ch));
          st1 = set_subscriptions ch l st
      in (0, if l = [] then deregister_loop ch (callbacks (channels st ! ch)) st1 else st1))"
  using assms
  by (simp add: unsubscribe_def unsubscribe_loop_filter Let_def set_subscriptions_nth
        nerd_deregister_channel_callbacks_def set_subscriptions_def)

subsection \<open>One channel, then all channels, of a cancellation\<close>

lemma cancel_step_channels:
  "ch < length (channels st) \<Longrightarrow>
   channels (snd (cancel_channel_subscription (Some ch) fd st)) =
     (channels st)[ch := without_sd fd (channels st ! ch)]"
  by (simp add: cancel_channel_subscription_def cancel_loop_filter Let_def set_subscriptions_def
        nm_log_def nerd_deregister_channel_callbacks_def deregister_loop_eq without_sd_def)

lemma cancel_step_neb_calls:
  "ch < length (channels st) \<Longrightarrow>
   neb_calls (snd (cancel_channel_subscription (Some ch) fd st)) =
     neb_calls st @ (if \<forall>x\<in>set (subscriptions (channels st ! ch)). sd x = fd
                     then deregister_calls (channels st ! ch) else [])"
  by (auto simp: cancel_channel_subscription_def cancel_loop_filter Let_def set_subscriptions_def
        nm_log_def nerd_deregister_channel_callbacks_def deregister_loop_eq deregister_calls_def
        filter_empty_conv)

lemma cancel_step_other:
  "sends (snd (cancel_channel_subscription chp fd st)) = sends st"
  "iob_closed (snd (cancel_channel_subscription chp fd st)) = iob_closed st"
  "nsock_out (snd (cancel_channel_subscription chp fd st)) = nsock_out st"
  by (simp_all add: cancel_channel_subscription_def cancel_loop_filter Let_def set_subscriptions_def
        nm_log_def nerd_deregister_channel_callbacks_def deregister_loop_eq split: option.splits)

lemma cancel_step_unsubscribe:
  "ch < length (channels st) \<Longrightarrow>
   snd (cancel_channel_subscription (Some ch) fd st) =
     (snd (unsubscribe fd ch st))\<lparr>logs := logs (snd (cancel_channel_subscription (Some ch) fd st))\<rparr>"
  by (simp add: cancel_channel_subscription_def cancel_loop_filter Let_def set_subscriptions_def
        nm_log_def nerd_deregister_channel_callbacks_def deregister_loop_eq
        unsubscribe_def unsubscribe_loop_filter)

lemma cancel_loop_other:
  "sends (cancel_subscriber_loop fd is st) = sends st"
  "iob_closed (cancel_subscriber_loop fd is st) = iob_closed st"
  "nsock_out (cancel_subscriber_loop fd is st) = nsock_out st"
  by (induction "is" arbitrary: st; simp add: cancel_step_other)+

lemma without_sd_idem: "without_sd fd (without_sd fd c) = without_sd fd c"
  by (simp add: without_sd_def)

lemma cancel_loop_channels:
  "\<forall>i\<in>set is. i < length (channels st) \<Longrightarrow>
   length (channels (cancel_subscriber_loop fd is st)) = length (channels st) \<and>
   (\<forall>j<length (channels st). channels (cancel_subscriber_loop fd is st) ! j =
      (if j \<in> set is then without_sd fd (channels st ! j) else channels st ! j))"
proof (induction "is" arbitrary: st)
  case Nil
  then show ?case by simp
next
  case (Cons i "is")
  let ?st1 = "snd (cancel_channel_subscription (Some i) fd st)"
  have i: "i < length (channels st)" using Cons.prems by simp
  have ch1: "channels ?st1 = (channels st)[i := without_sd fd (channels st ! i)]"
    using i by (rule cancel_step_channels)
  have "\<forall>k\<in>set is. k < length (channels ?st1)" using Cons.prems by (simp add: ch1)
  from Cons.IH [OF this] show ?case
    using i by (auto simp: ch1 nth_list_update without_sd_idem)
qed

lemma nerd_cancel_subscriber_channels:
  "channels (snd (nerd_cancel_subscriber fd st)) = map (without_sd fd) (channels st)"
proof -
  have "\<forall>i\<in>set [0..<length (channels st)]. i < length (channels st)" by simp
  from cancel_loop_channels [OF this, of fd]
  have "channels (cancel_subscriber_loop fd [0..<length (channels st)] st) = map (without_sd fd) (channels st)"
    by (intro nth_equalityI) simp_all
  then show ?thesis by (simp add: nerd_cancel_subscriber_def iobroker_close_def Let_def)
qed

subsection \<open>Unsubscribing\<close>

text \<open>
  C5. For a channel of the registry and a descriptor, \<open>unsubscribe\<close> leaves in the channel's
  list exactly the subscriptions whose descriptor differs, in their former order: every
  match is removed, duplicates included, not only the first.
\<close>

theorem unsubscribe_removes_every_match:
  assumes "ch < length (channels st)"
  shows "subscriptions (channels (snd (unsubscribe fd ch st)) ! ch) =
           filter (\<lambda>x. sd x \<noteq> fd) (subscriptions (channels st ! ch))"
  using assms
  by (simp add: unsubscribe_eq Let_def deregister_loop_eq set_subscriptions_def)

theorem unsubscribe_removes_every_match_witness:
  "(0::nat) < length (channels busy_state) \<and>
   subscriptions (channels (snd (unsubscribe 5 0 busy_state)) ! 0) = [subscr_of 6 0]"
  using unsubscribe_removes_every_match [of 0 busy_state 5]
  by (simp add: busy_state_def subscr_of_def)

subsection \<open>Broadcast\<close>

lemma register_loop_other:
  "channels (snd (register_loop rr ch cbs st)) = channels st"
  "sends (snd (register_loop rr ch cbs st)) = sends st"
  "iob_closed (snd (register_loop rr ch cbs st)) = iob_closed st"
  "nsock_out (snd (register_loop rr ch cbs st)) = nsock_out st"
  by (induction cbs arbitrary: st; simp add: neb_register_callback_def nm_log_def Let_def)+

lemma subscribe_channels:
  "channels (snd (subscribe rr fd ch fmt st)) =
     (channels st)[ch := (channels st ! ch)
        \<lparr>subscriptions := \<lparr>sd = fd, chan = ch, format = fmt\<rparr> # subscriptions (channels st ! ch)\<rparr>]"
  by (simp add: subscribe_def Let_def prepend_object_to_objectlist_def set_subscriptions_def
        nerd_register_channel_callbacks_def register_loop_other)

lemma subscribe_sends: "sends (snd (subscribe rr fd ch fmt st)) = sends st"
  by (simp add: subscribe_def Let_def prepend_object_to_objectlist_def set_subscriptions_def
        nerd_register_channel_callbacks_def register_loop_other)

lemma nerd_cancel_subscriber_other:
  "sends (snd (nerd_cancel_subscriber fd st)) = sends st"
  "iob_closed (snd (nerd_cancel_subscriber fd st)) = iob_closed st @ [fd]"
  "nsock_out (snd (nerd_cancel_subscriber fd st)) = nsock_out st"
  "fst (nerd_cancel_subscriber fd st) = 0"
  by (simp_all add: nerd_cancel_subscriber_def Let_def iobroker_close_def cancel_loop_other)

lemma broadcast_loop_delivered:
  "\<forall>i<length pre. 0 \<le> fst (tx (n + i) (sd (pre ! i))) \<Longrightarrow>
   broadcast_loop tx buf len n (pre @ rest) st =
     broadcast_loop tx buf len (n + length pre) rest
       (st\<lparr>sends := sends st @ send_calls buf len pre\<rparr>)"
proof (induction pre arbitrary: n st)
  case Nil
  then show ?case by (simp add: send_calls_def)
next
  case (Cons x xs)
  have ok: "0 \<le> fst (tx n (sd x))" using Cons.prems by force
  have "\<forall>i<length xs. 0 \<le> fst (tx (Suc n + i) (sd (xs ! i)))"
    using Cons.prems by force
  from Cons.IH [OF this] ok show ?case
    by (cases "tx n (sd x)") (simp add: send_calls_def Let_def)
qed

lemma broadcast_loop_sends_reached:
  "sends (snd (broadcast_loop tx buf len n l st)) = sends st @ send_calls buf len (reached tx n l)"
proof (induction l arbitrary: n st)
  case Nil
  then show ?case by (simp add: send_calls_def)
next
  case (Cons x xs)
  show ?case
    by (cases "tx n (sd x)")
       (simp add: Let_def nerd_cancel_subscriber_other send_calls_def Cons.IH)
qed

lemma nerd_broadcast_sends:
  "ch < length (channels st) \<Longrightarrow>
   sends (snd (nerd_broadcast tx ch buf len st)) =
     sends st @ send_calls buf len (reached tx 0 (subscriptions (channels st ! ch)))"
  by (simp add: nerd_broadcast_def nerd_get_channel_def broadcast_loop_sends_reached)

text \<open>
  C2. When the write to one subscription of the channel fails with \<open>EAGAIN\<close> (would
  block) after the writes to the subscriptions before it in the list went through,
  \<open>nerd_broadcast\<close> returns 0, the status of success, and has made a \<open>send\<close> for the
  subscriptions up to that one only: none for any subscription after it, and nothing else
  of the state has changed.
\<close>

theorem broadcast_would_block:
  assumes "chan_id < length (channels st)"
    and "subscriptions (channels st ! chan_id) = pre @ s # post"
    and "\<forall>i<length pre. 0 \<le> fst (tx i (sd (pre ! i)))"
    and "fst (tx (length pre) (sd s)) < 0"
    and "snd (tx (length pre) (sd s)) = EAGAIN"
  shows "nerd_broadcast tx chan_id buf len st =
           (0, st\<lparr>sends := sends st @ send_calls buf len (pre @ [s])\<rparr>)"
proof -
  have "\<forall>i<length pre. 0 \<le> fst (tx (0 + i) (sd (pre ! i)))" using assms(3) by simp
  from broadcast_loop_delivered [OF this, of buf len "s # post" st]
  have "broadcast_loop tx buf len 0 (pre @ s # post) st =
          (0, st\<lparr>sends := sends st @ send_calls buf len (pre @ [s])\<rparr>)"
    using assms(4,5) by (cases "tx (length pre) (sd s)") (simp add: Let_def send_calls_def)
  then show ?thesis
    using assms(1,2) by (simp add: nerd_broadcast_def nerd_get_channel_def)
qed

theorem broadcast_would_block_witness:
  "nerd_broadcast (\<lambda>n fd. if n = 1 then (-1, EAGAIN) else (12, 0)) 0 ''up'' 2 busy_state =
     (0, busy_state\<lparr>sends := [(5, ''up'', 2), (6, ''up'', 2)]\<rparr>)"
  using broadcast_would_block [of 0 busy_state "[subscr_of 5 0]" "subscr_of 6 0" "[subscr_of 5 0]"
      "\<lambda>n fd. if n = 1 then (-1, EAGAIN) else (12, 0)" "''up''" 2]
  by (simp add: busy_state_def subscr_of_def send_calls_def)

text \<open>
  C3. When the write to one subscription fails with an errno other than \<open>EAGAIN\<close>,
  \<open>nerd_broadcast\<close> calls \<open>nerd_cancel_subscriber\<close> for that descriptor, which takes it out
  of every channel and passes it to \<open>iobroker_close\<close>; no \<open>send\<close> is made for the
  subscriptions after it; the status is 500, which is neither the 0 of success nor the 0 of
  the would-block outcome.
\<close>

theorem broadcast_write_error:
  assumes "chan_id < length (channels st)"
    and "subscriptions (channels st ! chan_id) = pre @ s # post"
    and "\<forall>i<length pre. 0 \<le> fst (tx i (sd (pre ! i)))"
    and "fst (tx (length pre) (sd s)) < 0"
    and "snd (tx (length pre) (sd s)) \<noteq> EAGAIN"
  shows "nerd_broadcast tx chan_id buf len st =
           (500, snd (nerd_cancel_subscriber (sd s)
                        (st\<lparr>sends := sends st @ send_calls buf len (pre @ [s])\<rparr>))) \<and>
         channels (snd (nerd_broadcast tx chan_id buf len st)) =
           map (without_sd (sd s)) (channels st) \<and>
         iob_closed (snd (nerd_broadcast tx chan_id buf len st)) = iob_closed st @ [sd s] \<and>
         sends (snd (nerd_broadcast tx chan_id buf len st)) =
           sends st @ send_calls buf len (pre @ [s])"
proof -
  have "\<forall>i<length pre. 0 \<le> fst (tx (0 + i) (sd (pre ! i)))" using assms(3) by simp
  from broadcast_loop_delivered [OF this, of buf len "s # post" st]
  have "broadcast_loop tx buf len 0 (pre @ s # post) st =
          (500, snd (nerd_cancel_subscriber (sd s)
                        (st\<lparr>sends := sends st @ send_calls buf len (pre @ [s])\<rparr>)))"
    using assms(4,5) by (cases "tx (length pre) (sd s)") (simp add: Let_def send_calls_def)
  then have "nerd_broadcast tx chan_id buf len st =
           (500, snd (nerd_cancel_subscriber (sd s)
                        (st\<lparr>sends := sends st @ send_calls buf len (pre @ [s])\<rparr>)))"
    using assms(1,2) by (simp add: nerd_broadcast_def nerd_get_channel_def)
  then show ?thesis
    by (simp add: nerd_cancel_subscriber_channels nerd_cancel_subscriber_other)
qed

theorem broadcast_write_error_witness:
  "fst (nerd_broadcast (\<lambda>n fd. if n = 1 then (-1, 32) else (12, 0)) 0 ''up'' 2 busy_state) = 500 \<and>
   map subscriptions (channels (snd (nerd_broadcast (\<lambda>n fd. if n = 1 then (-1, 32) else (12, 0)) 0 ''up'' 2 busy_state))) =
      [[subscr_of 5 0, subscr_of 5 0], [subscr_of 5 1]] \<and>
   iob_closed (snd (nerd_broadcast (\<lambda>n fd. if n = 1 then (-1, 32) else (12, 0)) 0 ''up'' 2 busy_state)) = [6] \<and>
   sends (snd (nerd_broadcast (\<lambda>n fd. if n = 1 then (-1, 32) else (12, 0)) 0 ''up'' 2 busy_state)) =
      [(5, ''up'', 2), (6, ''up'', 2)]"
  using broadcast_write_error [of 0 busy_state "[subscr_of 5 0]" "subscr_of 6 0" "[subscr_of 5 0]"
      "\<lambda>n fd. if n = 1 then (-1, 32) else (12, 0)" "''up''" 2]
  by (simp add: busy_state_def subscr_of_def send_calls_def EAGAIN_def without_sd_def
        nerd_cancel_subscriber_channels nerd_cancel_subscriber_other)

subsection \<open>Subscribing\<close>

text \<open>
  C4. \<open>subscribe\<close> puts the new subscription at the head of the channel's list, and a
  broadcast on the channel writes to the subscriptions in list order, from the head up to
  and including the first whose write fails. So after \<open>b\<close> subscribes, the first \<open>send\<close>
  of a broadcast is on \<open>b\<close>, before the \<open>send\<close> on any subscription that was in the list
  already; after \<open>a\<close> and then \<open>b\<close> subscribe, the list is \<open>b\<close>, \<open>a\<close>, then the former
  list, and the sends follow that order; when no write fails, they are \<open>b\<close> and then the
  whole former list in its order.
\<close>

theorem subscribe_prepends_newest_first:
  assumes "ch < length (channels st)"
  shows "subscriptions (channels (snd (subscribe rr b ch fb st)) ! ch) =
           \<lparr>sd = b, chan = ch, format = fb\<rparr> # subscriptions (channels st ! ch) \<and>
         sends (snd (nerd_broadcast tx ch buf len (snd (subscribe rr b ch fb st)))) =
           sends st @ send_calls buf len
             (reached tx 0 (\<lparr>sd = b, chan = ch, format = fb\<rparr> # subscriptions (channels st ! ch))) \<and>
         subscriptions (channels (snd (subscribe rr b ch fb (snd (subscribe rr a ch fa st)))) ! ch) =
           \<lparr>sd = b, chan = ch, format = fb\<rparr> # \<lparr>sd = a, chan = ch, format = fa\<rparr> #
           subscriptions (channels st ! ch) \<and>
         sends (snd (nerd_broadcast tx ch buf len
                       (snd (subscribe rr b ch fb (snd (subscribe rr a ch fa st)))))) =
           sends st @ send_calls buf len
             (reached tx 0 (\<lparr>sd = b, chan = ch, format = fb\<rparr> # \<lparr>sd = a, chan = ch, format = fa\<rparr> #
                            subscriptions (channels st ! ch))) \<and>
         ((\<forall>n fd. 0 \<le> fst (tx n fd)) \<longrightarrow>
            sends (snd (nerd_broadcast tx ch buf len (snd (subscribe rr b ch fb st)))) =
              sends st @ (b, buf, len) # send_calls buf len (subscriptions (channels st ! ch)))"
proof -
  have all: "reached tx n l = l" if "\<forall>n fd. 0 \<le> fst (tx n fd)" for n l
    using that by (induction l arbitrary: n) (simp_all add: not_less [symmetric])
  have one: "subscriptions (channels (snd (subscribe rr b ch fb s)) ! ch) =
      \<lparr>sd = b, chan = ch, format = fb\<rparr> # subscriptions (channels s ! ch) \<and>
      ch < length (channels (snd (subscribe rr b ch fb s))) \<and>
      sends (snd (subscribe rr b ch fb s)) = sends s"
    if "ch < length (channels s)" for s b fb
    using that by (simp add: subscribe_channels subscribe_sends)
  note A = one [OF assms, of a fa]
  note B = one [OF assms, of b fb]
  have lenA: "ch < length (channels (snd (subscribe rr a ch fa st)))" using A by simp
  note AB = one [OF lenA, of b fb]
  show ?thesis
    using A B AB
    by (simp add: nerd_broadcast_sends all send_calls_def del: reached.simps)
qed

theorem subscribe_prepends_newest_first_witness:
  "subscriptions (channels (snd (subscribe (\<lambda>cb h. 0) 9 0 None busy_state)) ! 0) =
     [subscr_of 9 0, subscr_of 5 0, subscr_of 6 0, subscr_of 5 0] \<and>
   sends (snd (nerd_broadcast (\<lambda>n fd. (1, 0)) 0 ''x'' 1
                 (snd (subscribe (\<lambda>cb h. 0) 9 0 None busy_state)))) =
     [(9, ''x'', 1), (5, ''x'', 1), (6, ''x'', 1), (5, ''x'', 1)] \<and>
   sends (snd (nerd_broadcast (\<lambda>n fd. if n = 2 then (-1, EAGAIN) else (1, 0)) 0 ''x'' 1
                 (snd (subscribe (\<lambda>cb h. 0) 9 0 None (snd (subscribe (\<lambda>cb h. 0) 8 0 None busy_state)))))) =
     [(9, ''x'', 1), (8, ''x'', 1), (5, ''x'', 1)]"
  using subscribe_prepends_newest_first [of 0 busy_state "\<lambda>cb h. 0" 9 None "\<lambda>n fd. (1, 0)" "''x''" 1 8 None]
    subscribe_prepends_newest_first [of 0 busy_state "\<lambda>cb h. 0" 9 None
      "\<lambda>n fd. if n = 2 then (-1, EAGAIN) else (1, 0)" "''x''" 1 8 None]
  by (simp add: busy_state_def subscr_of_def send_calls_def)

subsection \<open>Cancelling a subscriber\<close>

lemma cancel_step_logs:
  "ch < length (channels st) \<Longrightarrow>
   logs (snd (cancel_channel_subscription (Some ch) fd st)) =
     logs st @ cancel_logs fd (channels st ! ch)"
  by (simp add: cancel_channel_subscription_def cancel_loop_filter Let_def set_subscriptions_def
        nm_log_def nerd_deregister_channel_callbacks_def deregister_loop_eq cancel_logs_def)

lemma cancel_loop_logs:
  "\<forall>i\<in>set is. i < length (channels st) \<Longrightarrow> distinct is \<Longrightarrow>
   logs (cancel_subscriber_loop fd is st) =
     logs st @ concat (map (\<lambda>i. cancel_logs fd (channels st ! i)) is)"
proof (induction "is" arbitrary: st)
  case Nil
  then show ?case by simp
next
  case (Cons i "is")
  let ?st1 = "snd (cancel_channel_subscription (Some i) fd st)"
  have i: "i < length (channels st)" using Cons.prems by simp
  have ch1: "channels ?st1 = (channels st)[i := without_sd fd (channels st ! i)]"
    using i by (rule cancel_step_channels)
  have "\<forall>k\<in>set is. k < length (channels ?st1)" using Cons.prems by (simp add: ch1)
  moreover have "distinct is" using Cons.prems by simp
  ultimately have "logs (cancel_subscriber_loop fd is ?st1) =
      logs ?st1 @ concat (map (\<lambda>k. cancel_logs fd (channels ?st1 ! k)) is)"
    by (rule Cons.IH)
  also have "map (\<lambda>k. cancel_logs fd (channels ?st1 ! k)) is =
             map (\<lambda>k. cancel_logs fd (channels st ! k)) is"
    using Cons.prems by (intro map_cong) (auto simp: ch1 nth_list_update)
  finally show ?case
    using i by (simp add: cancel_step_logs)
qed

lemma nerd_cancel_subscriber_logs:
  "logs (snd (nerd_cancel_subscriber fd st)) =
     logs st @ concat (map (cancel_logs fd) (channels st))"
proof -
  have "map (\<lambda>i. cancel_logs fd (channels st ! i)) [0..<length (channels st)] =
        map (cancel_logs fd) (channels st)"
    by (rule nth_equalityI) simp_all
  then show ?thesis
    by (simp add: nerd_cancel_subscriber_def Let_def iobroker_close_def cancel_loop_logs)
qed

text \<open>
  C8, as the code has it. For every descriptor, \<open>nerd_cancel_subscriber\<close> takes all its
  subscriptions out of every channel, returns 0 whatever the number it removed, passes
  the descriptor to \<open>iobroker_close\<close> itself, and writes to the log, channel by channel
  in registry order, the number of subscriptions removed from each channel that had any.
\<close>

theorem cancel_subscriber_effect:
  "fst (nerd_cancel_subscriber fd st) = 0 \<and>
   channels (snd (nerd_cancel_subscriber fd st)) = map (without_sd fd) (channels st) \<and>
   iob_closed (snd (nerd_cancel_subscriber fd st)) = iob_closed st @ [fd] \<and>
   logs (snd (nerd_cancel_subscriber fd st)) =
     logs st @ concat (map (cancel_logs fd) (channels st))"
  by (simp add: nerd_cancel_subscriber_channels nerd_cancel_subscriber_other
        nerd_cancel_subscriber_logs)

text \<open>
  C8 as stated fails: with three subscriptions of descriptor 5 in the registry the function
  returns 0, not 3, and the descriptor has been passed to \<open>iobroker_close\<close>.
\<close>

theorem cancel_subscriber_counterexample:
  "length (filter (\<lambda>x. sd x = 5) (concat (map subscriptions (channels busy_state)))) = 3 \<and>
   fst (nerd_cancel_subscriber 5 busy_state) = 0 \<and>
   iob_closed busy_state = [] \<and>
   iob_closed (snd (nerd_cancel_subscriber 5 busy_state)) = [5]"
  by (simp add: nerd_cancel_subscriber_other busy_state_def subscr_of_def)

lemma cancel_subscriber_example:
  "logs (snd (nerd_cancel_subscriber 5 busy_state)) =
     [Cancelled_subscriptions 2 ''hostchecks'' 5, Cancelled_subscriptions 1 ''servicechecks'' 5] \<and>
   logs (snd (nerd_cancel_subscriber 6 busy_state)) =
     [Cancelled_subscriptions 1 ''hostchecks'' 6] \<and>
   map subscriptions (channels (snd (nerd_cancel_subscriber 5 busy_state))) =
     [[subscr_of 6 0], []]"
  by (simp add: nerd_cancel_subscriber_logs nerd_cancel_subscriber_channels without_sd_def
        cancel_logs_def busy_state_def subscr_of_def)

subsection \<open>The query handler\<close>

lemma strchr_None: "(strchr s c = None) = (c \<notin> set s)"
  by (induction s) auto

lemma strchr_Some:
  "strchr s c = Some k \<Longrightarrow>
   take k s = takeWhile (\<lambda>x. x \<noteq> c) s \<and> drop (Suc k) s = tl (dropWhile (\<lambda>x. x \<noteq> c) s)"
  by (induction s arbitrary: k) (auto split: if_splits)

lemma takeWhile_absent: "c \<notin> set s \<Longrightarrow> takeWhile (\<lambda>x. x \<noteq> c) s = s"
  by (induction s) auto

lemma find_channel_from_None:
  "(find_channel_from i nm cs = None) = (nm \<notin> name ` set cs)"
  by (induction cs arbitrary: i) auto

lemma find_channel_from_Some:
  "find_channel_from i nm cs = Some k \<Longrightarrow>
   i \<le> k \<and> k - i < length cs \<and> name (cs ! (k - i)) = nm"
proof (induction cs arbitrary: i)
  case Nil
  then show ?case by simp
next
  case (Cons c cs)
  show ?case
  proof (cases "nm = name c")
    case True
    with Cons.prems show ?thesis by simp
  next
    case False
    with Cons.prems have "find_channel_from (Suc i) nm cs = Some k" by simp
    from Cons.IH [OF this] show ?thesis
      by (auto simp: nth_Cons' Suc_diff_le)
  qed
qed

lemma list_loop_eq:
  "list_loop fd cs st =
     st\<lparr>nsock_out := nsock_out st @
        map (\<lambda>c. (fd, printf_minus_15s (name c) @ '' '' @ description c @ ''\<newline>'')) cs\<rparr>"
  by (induction cs arbitrary: st) (simp_all add: nsock_printf_def)

text \<open>
  C9. For a request line other than the empty line, \<open>help\<close> and \<open>list\<close>: the verb is the
  text before the first space, the channel name the text after it up to the first colon,
  the format what follows that colon. If the line has no space, or the verb is neither
  \<open>subscribe\<close> nor \<open>unsubscribe\<close>, or \<open>find_channel\<close> finds no channel of that name,
  the handler returns 400 and the state is the one it was given; otherwise it returns 0 and
  the state is that of \<open>subscribe\<close>, or \<open>unsubscribe\<close>, called with the handler's own
  descriptor. \<open>find_channel\<close> finds nothing exactly when no channel of the registry has
  the name, and what it finds is a channel of the registry with that name.
\<close>

theorem qh_handler_subscription_requests:
  assumes "request \<noteq> []" and "request \<noteq> ''help''" and "request \<noteq> ''list''"
  shows "nerd_qh_handler rr fd request len st =
     (let verb = takeWhile (\<lambda>c. c \<noteq> CHR '' '') request;
          rest = tl (dropWhile (\<lambda>c. c \<noteq> CHR '' '') request);
          chan_name = takeWhile (\<lambda>c. c \<noteq> CHR '':'') rest;
          fmt = (if CHR '':'' \<in> set rest
                 then Some (tl (dropWhile (\<lambda>c. c \<noteq> CHR '':'') rest)) else None)
      in if CHR '' '' \<notin> set request \<or> (verb \<noteq> ''subscribe'' \<and> verb \<noteq> ''unsubscribe'')
         then (400, st)
         else case find_channel chan_name st of
                None \<Rightarrow> (400, st)
              | Some ch \<Rightarrow>
                  if verb = ''subscribe'' then (0, snd (subscribe rr fd ch fmt st))
                  else (0, snd (unsubscribe fd ch st))) \<and>
     (\<forall>nm. (find_channel nm st = None) = (nm \<notin> name ` set (channels st))) \<and>
     (\<forall>nm ch. find_channel nm st = Some ch \<longrightarrow>
        ch < length (channels st) \<and> name (channels st ! ch) = nm)"
proof -
  let ?sp = "CHR '' ''" and ?co = "CHR '':''"
  have reg: "(\<forall>nm. (find_channel nm st = None) = (nm \<notin> name ` set (channels st))) \<and>
     (\<forall>nm ch. find_channel nm st = Some ch \<longrightarrow>
        ch < length (channels st) \<and> name (channels st ! ch) = nm)"
    using find_channel_from_Some [of 0 _ "channels st"]
    by (auto simp: find_channel_def find_channel_from_None)
  have main: "nerd_qh_handler rr fd request len st =
     (let verb = takeWhile (\<lambda>c. c \<noteq> ?sp) request;
          rest = tl (dropWhile (\<lambda>c. c \<noteq> ?sp) request);
          chan_name = takeWhile (\<lambda>c. c \<noteq> ?co) rest;
          fmt = (if ?co \<in> set rest
                 then Some (tl (dropWhile (\<lambda>c. c \<noteq> ?co) rest)) else None)
      in if ?sp \<notin> set request \<or> (verb \<noteq> ''subscribe'' \<and> verb \<noteq> ''unsubscribe'')
         then (400, st)
         else case find_channel chan_name st of
                None \<Rightarrow> (400, st)
              | Some ch \<Rightarrow>
                  if verb = ''subscribe'' then (0, snd (subscribe rr fd ch fmt st))
                  else (0, snd (unsubscribe fd ch st)))"
  proof (cases "strchr request ?sp")
    case None
    then have "?sp \<notin> set request" by (simp add: strchr_None)
    with None assms show ?thesis by (simp add: nerd_qh_handler_def Let_def)
  next
    case (Some k)
    then have sp: "?sp \<in> set request" using strchr_None [of request ?sp] by auto
    note vk = strchr_Some [OF Some]
    let ?rest = "tl (dropWhile (\<lambda>c. c \<noteq> ?sp) request)"
    show ?thesis
    proof (cases "strchr ?rest ?co")
      case None
      then have "?co \<notin> set ?rest" by (simp add: strchr_None)
      then have tw: "takeWhile (\<lambda>c. c \<noteq> ?co) ?rest = ?rest"
        by (rule takeWhile_absent)
      show ?thesis
        using assms Some sp vk None \<open>?co \<notin> set ?rest\<close>
        by (simp add: nerd_qh_handler_def Let_def NERD_SUBSCRIBE_def NERD_UNSUBSCRIBE_def
              takeWhile_absent split: option.splits)
    next
      case (Some j)
      then have co: "?co \<in> set ?rest" using strchr_None [of ?rest ?co] by auto
      note cj = strchr_Some [OF Some]
      show ?thesis
        using assms \<open>strchr request ?sp = Some k\<close> sp vk Some co cj
        by (simp add: nerd_qh_handler_def Let_def NERD_SUBSCRIBE_def NERD_UNSUBSCRIBE_def
              split: option.splits)
    qed
  qed
  from main reg show ?thesis by blast
qed

theorem qh_handler_subscription_requests_witness:
  "nerd_qh_handler (\<lambda>cb h. 0) 4 ''subscribe servicechecks:json'' 26 init_state =
     (0, snd (subscribe (\<lambda>cb h. 0) 4 1 (Some ''json'') init_state)) \<and>
   nerd_qh_handler (\<lambda>cb h. 0) 4 ''unsubscribe hostchecks'' 22 busy_state =
     (0, snd (unsubscribe 4 0 busy_state)) \<and>
   nerd_qh_handler (\<lambda>cb h. 0) 4 ''subscribe nothere'' 17 init_state = (400, init_state) \<and>
   nerd_qh_handler (\<lambda>cb h. 0) 4 ''Subscribe hostchecks'' 20 init_state = (400, init_state) \<and>
   nerd_qh_handler (\<lambda>cb h. 0) 4 ''subscribe'' 9 init_state = (400, init_state)"
  using qh_handler_subscription_requests [of "''subscribe servicechecks:json''" "\<lambda>cb h. 0" 4 26 init_state]
    qh_handler_subscription_requests [of "''unsubscribe hostchecks''" "\<lambda>cb h. 0" 4 22 busy_state]
    qh_handler_subscription_requests [of "''subscribe nothere''" "\<lambda>cb h. 0" 4 17 init_state]
    qh_handler_subscription_requests [of "''Subscribe hostchecks''" "\<lambda>cb h. 0" 4 20 init_state]
    qh_handler_subscription_requests [of "''subscribe''" "\<lambda>cb h. 0" 4 9 init_state]
  by (simp add: find_channel_def init_state_def busy_state_def)

text \<open>
  C10. For the request \<open>list\<close> the handler writes exactly one line per channel of the
  registry, in registry order: the name padded with spaces to a width of 15 (the name
  first, the padding after it, as \<open><name><padding><description>\<close>; a longer name is
  written in full), one space, the description and a newline; then one write of a single
  zero byte. It returns 0, and no subscriber list is read.
\<close>

theorem qh_handler_list:
  "nerd_qh_handler rr fd ''list'' len st =
     (0, st\<lparr>nsock_out := nsock_out st @
            map (\<lambda>c. (fd, name c @ replicate (15 - length (name c)) CHR '' '' @ '' '' @
                           description c @ ''\<newline>'')) (channels st) @
            [(fd, [CHR 0x00])]\<rparr>)"
  by (simp add: nerd_qh_handler_def list_loop_eq nsock_printf_def printf_minus_15s_def)

text \<open>On the registry of \<open>nerd_init\<close>, with subscribers or without, the output is the same.\<close>

lemma qh_handler_list_example:
  "nsock_out (snd (nerd_qh_handler rr 3 ''list'' 4 init_state)) =
     [(3, ''hostchecks      Host check results\<newline>''),
      (3, ''servicechecks   Service check results\<newline>''),
      (3, [CHR 0x00])] \<and>
   nsock_out (snd (nerd_qh_handler rr 3 ''list'' 4 busy_state)) =
     nsock_out (snd (nerd_qh_handler rr 3 ''list'' 4 init_state))"
  by (simp add: nerd_qh_handler_def list_loop_eq nsock_printf_def printf_minus_15s_def
        init_state_def busy_state_def eval_nat_numeral)

subsection \<open>Activation\<close>

lemma register_loop_calls:
  "neb_calls (snd (register_loop rr ch cbs st)) =
     neb_calls st @ map (\<lambda>cb. Neb_register cb (handler (channels st ! ch)))
                      (attempted rr (handler (channels st ! ch)) cbs)"
  by (induction cbs arbitrary: st)
     (simp_all add: attempted_def neb_register_callback_def nm_log_def Let_def)

lemma register_loop_logs:
  "logs (snd (register_loop rr ch cbs st)) =
     logs st @ (case dropWhile (\<lambda>cb. rr cb (handler (channels st ! ch)) = 0) cbs of
                  [] \<Rightarrow> []
                | cb # rest \<Rightarrow> [Failed_to_register cb (name (channels st ! ch))
                                 (rr cb (handler (channels st ! ch)))])"
  by (induction cbs arbitrary: st)
     (simp_all add: neb_register_callback_def nm_log_def Let_def cong: list.case_cong)

lemma register_loop_table:
  "neb_table (snd (register_loop rr ch cbs st)) =
     neb_table st @ map (\<lambda>cb. (cb, handler (channels st ! ch)))
                      (takeWhile (\<lambda>cb. rr cb (handler (channels st ! ch)) = 0) cbs)"
  by (induction cbs arbitrary: st)
     (simp_all add: neb_register_callback_def nm_log_def Let_def)

text \<open>
  C6, as the code has it. When the first subscriber is added to a channel, the activation
  step passes the declared callbacks to the broker in order and stops at the first one
  whose registration fails: that failure is logged, the callbacks after it are not
  attempted, the callbacks before it stay registered, and the subscription is added all
  the same.
\<close>

theorem first_subscriber_registration:
  assumes "ch < length (channels st)" and "subscriptions (channels st ! ch) = []"
  shows "neb_calls (snd (subscribe rr fd ch fmt st)) =
           neb_calls st @
           map (\<lambda>cb. Neb_register cb (handler (channels st ! ch)))
             (attempted rr (handler (channels st ! ch)) (callbacks (channels st ! ch))) \<and>
         logs (snd (subscribe rr fd ch fmt st)) =
           logs st @
           (case dropWhile (\<lambda>cb. rr cb (handler (channels st ! ch)) = 0)
                   (callbacks (channels st ! ch)) of
              [] \<Rightarrow> []
            | cb # rest \<Rightarrow> [Failed_to_register cb (name (channels st ! ch))
                             (rr cb (handler (channels st ! ch)))]) \<and>
         neb_table (snd (subscribe rr fd ch fmt st)) =
           neb_table st @
           map (\<lambda>cb. (cb, handler (channels st ! ch)))
             (takeWhile (\<lambda>cb. rr cb (handler (channels st ! ch)) = 0)
                (callbacks (channels st ! ch))) \<and>
         subscriptions (channels (snd (subscribe rr fd ch fmt st)) ! ch) =
           [\<lparr>sd = fd, chan = ch, format = fmt\<rparr>]"
  using assms
  by (simp add: subscribe_def Let_def prepend_object_to_objectlist_def set_subscriptions_def
        nerd_register_channel_callbacks_def register_loop_calls register_loop_logs
        register_loop_table register_loop_other)

theorem first_subscriber_registration_witness:
  "neb_calls (snd (subscribe (\<lambda>cb h. if cb = 6 then 0 else -1) 5 0 None
       (pair_state\<lparr>channels := [(channels pair_state ! 0)\<lparr>callbacks := [6, 7, 8]\<rparr>]\<rparr>))) =
     [Neb_register 6 1, Neb_register 7 1] \<and>
   logs (snd (subscribe (\<lambda>cb h. if cb = 6 then 0 else -1) 5 0 None
       (pair_state\<lparr>channels := [(channels pair_state ! 0)\<lparr>callbacks := [6, 7, 8]\<rparr>]\<rparr>))) =
     [Failed_to_register 7 ''checks'' (-1)] \<and>
   neb_table (snd (subscribe (\<lambda>cb h. if cb = 6 then 0 else -1) 5 0 None
       (pair_state\<lparr>channels := [(channels pair_state ! 0)\<lparr>callbacks := [6, 7, 8]\<rparr>]\<rparr>))) =
     [(6, 1)] \<and>
   subscriptions (channels (snd (subscribe (\<lambda>cb h. if cb = 6 then 0 else -1) 5 0 None
       (pair_state\<lparr>channels := [(channels pair_state ! 0)\<lparr>callbacks := [6, 7, 8]\<rparr>]\<rparr>))) ! 0) =
     [subscr_of 5 0]"
  using first_subscriber_registration [of 0
      "pair_state\<lparr>channels := [(channels pair_state ! 0)\<lparr>callbacks := [6, 7, 8]\<rparr>]\<rparr>"
      "\<lambda>cb h. if cb = 6 then 0 else -1" 5 None]
  by (simp add: pair_state_def attempted_def subscr_of_def)

text \<open>
  C6 as stated fails: with callback types 6 and 7 declared and the registration of 6
  failing, the only call to the broker is the one for 6; 7 is never attempted.
\<close>

theorem first_subscriber_registration_counterexample:
  "subscriptions (channels pair_state ! 0) = [] \<and>
   callbacks (channels pair_state ! 0) = [6, 7] \<and>
   neb_calls (snd (subscribe (\<lambda>cb h. if cb = 6 then -1 else 0) 5 0 None pair_state)) =
     [Neb_register 6 1] \<and>
   logs (snd (subscribe (\<lambda>cb h. if cb = 6 then -1 else 0) 5 0 None pair_state)) =
     [Failed_to_register 6 ''checks'' (-1)]"
  by (simp add: pair_state_def subscribe_def Let_def nerd_register_channel_callbacks_def
        neb_register_callback_def nm_log_def prepend_object_to_objectlist_def
        set_subscriptions_def)

subsection \<open>The broker's table under one operation\<close>

lemma count_list_remove1:
  "count_list (remove1 y t) x = (if x = y then count_list t x - 1 else count_list t x)"
  by (induction t) auto

lemma count_list_fold_remove1:
  "count_list (fold remove1 ys t) x = count_list t x - count_list ys x"
  by (induction ys arbitrary: t) (simp_all add: count_list_remove1)

lemma fold_remove1_declared:
  "fold (\<lambda>cb. remove1 (cb, h)) cbs t = fold remove1 (map (\<lambda>cb. (cb, h)) cbs) t"
  by (simp add: fold_map comp_def)

lemma count_list_pairs:
  "count_list (map (\<lambda>cb. (cb, h)) cbs) (cb', h') = (if h' = h then count_list cbs cb' else 0)"
  by (induction cbs) auto

lemma count_list_takeWhile: "count_list (takeWhile P xs) x \<le> count_list xs x"
proof (induction xs)
  case Nil
  show ?case by simp
next
  case (Cons a xs)
  then show ?case by (cases "P a") simp_all
qed

lemma count_list_declared: "count_list (declared c) (cb, handler c) = count_list (callbacks c) cb"
  by (simp add: declared_def count_list_pairs)

lemma pairwise_disjoint_nth:
  "pairwise_disjoint ls \<Longrightarrow> i < length ls \<Longrightarrow> j < length ls \<Longrightarrow> i \<noteq> j \<Longrightarrow>
   set (ls ! i) \<inter> set (ls ! j) = {}"
proof (induction ls arbitrary: i j)
  case Nil
  then show ?case by simp
next
  case (Cons l ls)
  show ?case
  proof (cases i)
    case 0
    then obtain j' where "j = Suc j'" using Cons.prems(4) by (cases j) auto
    then show ?thesis using 0 Cons.prems by auto
  next
    case (Suc i')
    show ?thesis
    proof (cases j)
      case 0
      then show ?thesis using Suc Cons.prems by auto
    next
      case (Suc j')
      then show ?thesis using \<open>i = Suc i'\<close> Cons.prems Cons.IH [of i' j'] by simp
    qed
  qed
qed

lemma foreign_count:
  assumes "registry_ok st" and "i < length (channels st)" and "ch < length (channels st)"
    and "i \<noteq> ch" and "cb \<in> set (callbacks (channels st ! i))"
    and "set l \<subseteq> set (declared (channels st ! ch))"
  shows "count_list l (cb, handler (channels st ! i)) = 0"
proof -
  have "set (declared (channels st ! i)) \<inter> set (declared (channels st ! ch)) = {}"
    using pairwise_disjoint_nth [of "map declared (channels st)" i ch] assms(1-4)
    by (simp add: registry_ok_def)
  moreover have "(cb, handler (channels st ! i)) \<in> set (declared (channels st ! i))"
    using assms(5) by (simp add: declared_def)
  ultimately have "(cb, handler (channels st ! i)) \<notin> set l" using assms(6) by blast
  then show ?thesis by simp
qed

lemma attempted_Cons:
  "attempted rr h (cb # cbs) = (if rr cb h = 0 then cb # attempted rr h cbs else [cb])"
  by (simp add: attempted_def)

lemma attempted_accepted:
  "\<forall>cb\<in>set (attempted rr h cbs). rr cb h = 0 \<Longrightarrow> takeWhile (\<lambda>cb. rr cb h = 0) cbs = cbs"
proof (induction cbs)
  case Nil
  show ?case by simp
next
  case (Cons cb cbs)
  show ?case
  proof (cases "rr cb h = 0")
    case True
    with Cons.prems have "\<forall>x\<in>set (attempted rr h cbs). rr x h = 0"
      by (simp add: attempted_Cons)
    from Cons.IH [OF this] True show ?thesis by simp
  next
    case False
    with Cons.prems show ?thesis by (simp add: attempted_Cons)
  qed
qed

lemma subscribe_broker:
  "neb_table (snd (subscribe rr fd ch fmt st)) =
     neb_table st @
     (if subscriptions (channels st ! ch) = []
      then map (\<lambda>cb. (cb, handler (channels st ! ch)))
             (takeWhile (\<lambda>cb. rr cb (handler (channels st ! ch)) = 0) (callbacks (channels st ! ch)))
      else [])"
  "neb_calls (snd (subscribe rr fd ch fmt st)) =
     neb_calls st @ (if subscriptions (channels st ! ch) = []
                     then register_calls rr (channels st ! ch) else [])"
  by (simp_all add: subscribe_def Let_def prepend_object_to_objectlist_def set_subscriptions_def
        nerd_register_channel_callbacks_def register_loop_table register_loop_calls
        register_calls_def)

lemma unsubscribe_channels:
  "ch < length (channels st) \<Longrightarrow>
   channels (snd (unsubscribe fd ch st)) = (channels st)[ch := without_sd fd (channels st ! ch)]"
  by (simp add: unsubscribe_eq Let_def deregister_loop_eq set_subscriptions_def without_sd_def)

lemma unsubscribe_broker:
  assumes "ch < length (channels st)"
  shows "neb_table (snd (unsubscribe fd ch st)) =
           (if leaves_empty fd (channels st ! ch)
            then fold (\<lambda>cb. remove1 (cb, handler (channels st ! ch)))
                   (callbacks (channels st ! ch)) (neb_table st)
            else neb_table st)"
    and "neb_calls (snd (unsubscribe fd ch st)) =
           neb_calls st @ (if leaves_empty fd (channels st ! ch)
                           then deregister_calls (channels st ! ch) else [])"
  using assms
  by (auto simp: unsubscribe_eq Let_def deregister_loop_eq set_subscriptions_def
        leaves_empty_def deregister_calls_def filter_empty_conv)

lemma unsubscribe_table_count:
  assumes "ch < length (channels st)"
  shows "count_list (neb_table (snd (unsubscribe fd ch st))) x =
           (if leaves_empty fd (channels st ! ch)
            then count_list (neb_table st) x - count_list (declared (channels st ! ch)) x
            else count_list (neb_table st) x)"
  using assms
  by (simp add: unsubscribe_broker fold_remove1_declared count_list_fold_remove1 declared_def)

text \<open>
  C7, as the code has it. Every \<open>unsubscribe\<close>, and every cancellation on one channel,
  that leaves the channel's list empty issues the deregistration of each declared callback
  once, whether the list held a subscriber before the call or was empty already; a call
  that leaves a subscriber issues none.
\<close>

theorem deregistration_when_left_empty:
  assumes "ch < length (channels st)"
  shows "neb_calls (snd (unsubscribe fd ch st)) =
           neb_calls st @ (if leaves_empty fd (channels st ! ch)
                           then deregister_calls (channels st ! ch) else []) \<and>
         neb_calls (snd (cancel_channel_subscription (Some ch) fd st)) =
           neb_calls st @ (if leaves_empty fd (channels st ! ch)
                           then deregister_calls (channels st ! ch) else [])"
  using assms
  by (simp add: unsubscribe_broker cancel_step_neb_calls leaves_empty_def)

theorem deregistration_when_left_empty_witness:
  "neb_calls (snd (unsubscribe 6 0 busy_state)) = [] \<and>
   neb_calls (snd (cancel_channel_subscription (Some 0) 6 busy_state)) = [] \<and>
   neb_calls (snd (unsubscribe 5 1 busy_state)) = [Neb_deregister 6 2] \<and>
   neb_calls (snd (cancel_channel_subscription (Some 1) 5 busy_state)) = [Neb_deregister 6 2]"
  using deregistration_when_left_empty [of 0 busy_state 6]
    deregistration_when_left_empty [of 1 busy_state 5]
  by (simp add: busy_state_def subscr_of_def leaves_empty_def deregister_calls_def)

text \<open>
  C7 as stated fails: after one subscriber has come and gone, a second \<open>unsubscribe\<close> on
  the now empty channel deregisters the callback a second time.
\<close>

theorem deregistration_counterexample:
  "neb_calls (snd (unsubscribe 5 0 (snd (unsubscribe 5 0
       (snd (subscribe (\<lambda>cb h. 0) 5 0 None init_state)))))) =
     [Neb_register 7 1, Neb_deregister 7 1, Neb_deregister 7 1]"
  by (simp add: init_state_def subscribe_def unsubscribe_def Let_def
        nerd_register_channel_callbacks_def nerd_deregister_channel_callbacks_def
        neb_register_callback_def neb_deregister_callback_def
        prepend_object_to_objectlist_def set_subscriptions_def)

lemma activation_bound_nth:
  "activation_bound st =
     (\<forall>i<length (channels st). \<forall>cb\<in>set (callbacks (channels st ! i)).
        count_list (neb_table st) (cb, handler (channels st ! i)) \<le>
          (if subscriptions (channels st ! i) = [] then 0
           else count_list (callbacks (channels st ! i)) cb))"
  unfolding activation_bound_def by (simp add: all_set_conv_all_nth)

lemma activation_reached_nth:
  "activation_reached st =
     (\<forall>i<length (channels st). \<forall>cb\<in>set (callbacks (channels st ! i)).
        subscriptions (channels st ! i) \<noteq> [] \<longrightarrow>
          count_list (callbacks (channels st ! i)) cb \<le>
          count_list (neb_table st) (cb, handler (channels st ! i)))"
  unfolding activation_reached_def by (simp add: all_set_conv_all_nth)

lemma activation_inv_iff:
  "activation_inv st = (activation_bound st \<and> activation_reached st)"
  unfolding activation_inv_def activation_bound_def activation_reached_def
  by (auto simp: le_antisym)

lemma subscribe_nth:
  assumes "ch < length (channels st)" and "i < length (channels st)"
  shows "handler (channels (snd (subscribe rr fd ch fmt st)) ! i) = handler (channels st ! i)"
    and "callbacks (channels (snd (subscribe rr fd ch fmt st)) ! i) = callbacks (channels st ! i)"
    and "subscriptions (channels (snd (subscribe rr fd ch fmt st)) ! i) =
           (if i = ch then \<lparr>sd = fd, chan = ch, format = fmt\<rparr> # subscriptions (channels st ! ch)
            else subscriptions (channels st ! i))"
  using assms by (simp_all add: subscribe_channels nth_list_update)

lemma unsubscribe_nth:
  assumes "ch < length (channels st)" and "i < length (channels st)"
  shows "handler (channels (snd (unsubscribe fd ch st)) ! i) = handler (channels st ! i)"
    and "callbacks (channels (snd (unsubscribe fd ch st)) ! i) = callbacks (channels st ! i)"
    and "subscriptions (channels (snd (unsubscribe fd ch st)) ! i) =
           (if i = ch then filter (\<lambda>x. sd x \<noteq> fd) (subscriptions (channels st ! ch))
            else subscriptions (channels st ! i))"
  using assms by (simp_all add: unsubscribe_channels nth_list_update without_sd_def)

lemma subscribe_table_count:
  "count_list (neb_table (snd (subscribe rr fd ch fmt st))) x =
     count_list (neb_table st) x +
     (if subscriptions (channels st ! ch) = []
      then count_list (map (\<lambda>cb. (cb, handler (channels st ! ch)))
             (takeWhile (\<lambda>cb. rr cb (handler (channels st ! ch)) = 0)
                (callbacks (channels st ! ch)))) x
      else 0)"
  by (simp add: subscribe_broker)

lemma registered_prefix_declared:
  "set (map (\<lambda>cb. (cb, handler c)) (takeWhile P (callbacks c))) \<subseteq> set (declared c)"
  by (auto simp: declared_def dest: set_takeWhileD)

lemma subscribe_bound:
  assumes ok: "registry_ok st" and inv: "activation_bound st" and ch: "ch < length (channels st)"
  shows "activation_bound (snd (subscribe rr fd ch fmt st))"
  unfolding activation_bound_nth
proof (intro allI impI ballI)
  let ?st' = "snd (subscribe rr fd ch fmt st)"
  let ?c = "channels st ! ch"
  let ?reg = "map (\<lambda>cb. (cb, handler ?c)) (takeWhile (\<lambda>cb. rr cb (handler ?c) = 0) (callbacks ?c))"
  fix i cb
  assume i': "i < length (channels ?st')" and cb': "cb \<in> set (callbacks (channels ?st' ! i))"
  have i: "i < length (channels st)" using i' by (simp add: subscribe_channels)
  note nth = subscribe_nth [OF ch i, of rr fd fmt]
  have cb: "cb \<in> set (callbacks (channels st ! i))" using cb' by (simp only: nth)
  have old: "count_list (neb_table st) (cb, handler (channels st ! i)) \<le>
               (if subscriptions (channels st ! i) = [] then 0
                else count_list (callbacks (channels st ! i)) cb)"
    using inv i cb by (simp add: activation_bound_nth)
  show "count_list (neb_table ?st') (cb, handler (channels ?st' ! i)) \<le>
          (if subscriptions (channels ?st' ! i) = [] then 0
           else count_list (callbacks (channels ?st' ! i)) cb)"
  proof (cases "i = ch")
    case True
    note nthc = subscribe_nth [OF ch ch, of rr fd fmt]
    have "count_list ?reg (cb, handler ?c) \<le> count_list (callbacks ?c) cb"
      by (simp add: count_list_pairs count_list_takeWhile)
    then show ?thesis
      unfolding True using old [unfolded True]
      by (auto simp: nthc subscribe_table_count split: if_splits)
  next
    case False
    have "count_list ?reg (cb, handler (channels st ! i)) = 0"
      using ok i ch False cb registered_prefix_declared by (rule foreign_count)
    then show ?thesis
      using old False by (auto simp: nth subscribe_table_count split: if_splits)
  qed
qed

lemma subscribe_reached:
  assumes inv: "activation_reached st" and ch: "ch < length (channels st)"
    and acc: "subscriptions (channels st ! ch) = [] \<longrightarrow>
              (\<forall>cb\<in>set (attempted rr (handler (channels st ! ch)) (callbacks (channels st ! ch))).
                 rr cb (handler (channels st ! ch)) = 0)"
  shows "activation_reached (snd (subscribe rr fd ch fmt st))"
  unfolding activation_reached_nth
proof (intro allI impI ballI)
  let ?st' = "snd (subscribe rr fd ch fmt st)"
  let ?c = "channels st ! ch"
  fix i cb
  assume i': "i < length (channels ?st')" and cb': "cb \<in> set (callbacks (channels ?st' ! i))"
    and ne': "subscriptions (channels ?st' ! i) \<noteq> []"
  have i: "i < length (channels st)" using i' by (simp add: subscribe_channels)
  note nth = subscribe_nth [OF ch i, of rr fd fmt]
  have cb: "cb \<in> set (callbacks (channels st ! i))" using cb' by (simp only: nth)
  have grow: "count_list (neb_table st) x \<le> count_list (neb_table ?st') x" for x
    by (simp add: subscribe_table_count)
  show "count_list (callbacks (channels ?st' ! i)) cb \<le>
          count_list (neb_table ?st') (cb, handler (channels ?st' ! i))"
  proof (cases "subscriptions (channels st ! i) = []")
    case True
    with ne' have ich: "i = ch" by (simp add: nth split: if_splits)
    note nthc = subscribe_nth [OF ch ch, of rr fd fmt]
    have emp: "subscriptions ?c = []" using True unfolding ich .
    have tw: "takeWhile (\<lambda>cb. rr cb (handler ?c) = 0) (callbacks ?c) = callbacks ?c"
      using acc emp by (intro attempted_accepted) simp
    show ?thesis
      unfolding ich using emp by (simp add: nthc subscribe_table_count count_list_pairs tw)
  next
    case False
    then have "count_list (callbacks (channels st ! i)) cb \<le>
               count_list (neb_table st) (cb, handler (channels st ! i))"
      using inv i cb by (simp add: activation_reached_nth)
    also have "\<dots> \<le> count_list (neb_table ?st') (cb, handler (channels st ! i))" by (rule grow)
    finally show ?thesis by (simp add: nth)
  qed
qed

lemma unsubscribe_bound:
  assumes ok: "registry_ok st" and inv: "activation_bound st" and ch: "ch < length (channels st)"
  shows "activation_bound (snd (unsubscribe fd ch st))"
  unfolding activation_bound_nth
proof (intro allI impI ballI)
  let ?st' = "snd (unsubscribe fd ch st)"
  let ?c = "channels st ! ch"
  fix i cb
  assume i': "i < length (channels ?st')" and cb': "cb \<in> set (callbacks (channels ?st' ! i))"
  have i: "i < length (channels st)" using i' ch by (simp add: unsubscribe_channels)
  note nth = unsubscribe_nth [OF ch i, of fd]
  have cb: "cb \<in> set (callbacks (channels st ! i))" using cb' by (simp only: nth)
  have old: "count_list (neb_table st) (cb, handler (channels st ! i)) \<le>
               (if subscriptions (channels st ! i) = [] then 0
                else count_list (callbacks (channels st ! i)) cb)"
    using inv i cb by (simp add: activation_bound_nth)
  have shrink: "count_list (neb_table ?st') x \<le> count_list (neb_table st) x" for x
    using ch by (simp add: unsubscribe_table_count)
  show "count_list (neb_table ?st') (cb, handler (channels ?st' ! i)) \<le>
          (if subscriptions (channels ?st' ! i) = [] then 0
           else count_list (callbacks (channels ?st' ! i)) cb)"
  proof (cases "i = ch")
    case True
    show ?thesis
    proof (cases "leaves_empty fd ?c")
      case le: True
      have "count_list (neb_table st) (cb, handler ?c) \<le> count_list (callbacks ?c) cb"
        using old [unfolded True] by (simp split: if_splits)
      then have "count_list (neb_table ?st') (cb, handler ?c) = 0"
        using ch le by (simp add: unsubscribe_table_count count_list_declared)
      then show ?thesis unfolding True by (simp add: unsubscribe_nth [OF ch ch])
    next
      case False
      then have ne: "filter (\<lambda>x. sd x \<noteq> fd) (subscriptions ?c) \<noteq> []"
        "subscriptions ?c \<noteq> []"
        by (auto simp: leaves_empty_def filter_empty_conv)
      have "count_list (neb_table ?st') (cb, handler ?c) \<le> count_list (neb_table st) (cb, handler ?c)"
        by (rule shrink)
      then show ?thesis
        unfolding True using old [unfolded True] ne
        by (auto simp: unsubscribe_nth [OF ch ch] split: if_splits)
    qed
  next
    case False
    have "count_list (neb_table ?st') (cb, handler (channels st ! i)) \<le>
          count_list (neb_table st) (cb, handler (channels st ! i))"
      by (rule shrink)
    then show ?thesis using old False by (auto simp: nth split: if_splits)
  qed
qed

lemma unsubscribe_reached:
  assumes ok: "registry_ok st" and inv: "activation_reached st" and ch: "ch < length (channels st)"
  shows "activation_reached (snd (unsubscribe fd ch st))"
  unfolding activation_reached_nth
proof (intro allI impI ballI)
  let ?st' = "snd (unsubscribe fd ch st)"
  let ?c = "channels st ! ch"
  fix i cb
  assume i': "i < length (channels ?st')" and cb': "cb \<in> set (callbacks (channels ?st' ! i))"
    and ne': "subscriptions (channels ?st' ! i) \<noteq> []"
  have i: "i < length (channels st)" using i' ch by (simp add: unsubscribe_channels)
  note nth = unsubscribe_nth [OF ch i, of fd]
  have cb: "cb \<in> set (callbacks (channels st ! i))" using cb' by (simp only: nth)
  have ne: "subscriptions (channels st ! i) \<noteq> []"
    using ne' by (auto simp: nth split: if_splits)
  have old: "count_list (callbacks (channels st ! i)) cb \<le>
             count_list (neb_table st) (cb, handler (channels st ! i))"
    using inv i cb ne by (simp add: activation_reached_nth)
  have same: "count_list (neb_table ?st') (cb, handler (channels st ! i)) =
              count_list (neb_table st) (cb, handler (channels st ! i))"
  proof (cases "i = ch")
    case True
    have "\<not> leaves_empty fd ?c"
      using ne' [unfolded True]
      by (simp add: unsubscribe_nth [OF ch ch] leaves_empty_def filter_empty_conv)
    then show ?thesis using ch by (simp add: unsubscribe_table_count)
  next
    case False
    have "count_list (declared ?c) (cb, handler (channels st ! i)) = 0"
      using ok i ch False cb subset_refl by (rule foreign_count)
    then show ?thesis using ch by (simp add: unsubscribe_table_count)
  qed
  show "count_list (callbacks (channels ?st' ! i)) cb \<le>
          count_list (neb_table ?st') (cb, handler (channels ?st' ! i))"
    using old same by (simp add: nth)
qed

subsection \<open>The broker's table under a run of operations\<close>

lemma map_declared_update:
  "map declared (cs[i := (cs ! i)\<lparr>subscriptions := l\<rparr>]) = map declared cs"
proof (cases "i < length cs")
  case True
  then show ?thesis by (simp add: map_update list_update_same_conv declared_def)
next
  case False
  then have "cs[i := (cs ! i)\<lparr>subscriptions := l\<rparr>] = cs" by (simp add: list_update_beyond)
  then show ?thesis by simp
qed

lemma declared_without_sd: "declared (without_sd fd c) = declared c"
  by (simp add: declared_def without_sd_def)

lemma apply_op_declared:
  assumes "op_in_range (length (channels st)) op"
  shows "map declared (channels (apply_op rr op st)) = map declared (channels st)"
proof (cases op)
  case (Subscribe fd ch fmt)
  then show ?thesis by (simp add: subscribe_channels map_declared_update)
next
  case (Unsubscribe fd ch)
  then show ?thesis
    using assms by (simp add: unsubscribe_channels without_sd_def map_declared_update)
next
  case (Cancel_subscriber fd)
  then show ?thesis by (simp add: nerd_cancel_subscriber_channels declared_without_sd)
qed

lemma apply_op_registry_ok:
  "op_in_range (length (channels st)) op \<Longrightarrow> registry_ok st \<Longrightarrow> registry_ok (apply_op rr op st)"
  unfolding registry_ok_def by (simp only: apply_op_declared)

lemma apply_op_length:
  "op_in_range (length (channels st)) op \<Longrightarrow>
   length (channels (apply_op rr op st)) = length (channels st)"
  using apply_op_declared [of st op rr] by (metis length_map)

lemma activation_logs:
  "activation_bound (st\<lparr>logs := l\<rparr>) = activation_bound st"
  "activation_reached (st\<lparr>logs := l\<rparr>) = activation_reached st"
  "registry_ok (st\<lparr>logs := l\<rparr>) = registry_ok st"
  by (simp_all add: activation_bound_def activation_reached_def registry_ok_def)

lemma cancel_step_preserves:
  assumes ok: "registry_ok st" and ch: "ch < length (channels st)"
  shows "registry_ok (snd (cancel_channel_subscription (Some ch) fd st))"
    and "activation_bound st \<Longrightarrow>
         activation_bound (snd (cancel_channel_subscription (Some ch) fd st))"
    and "activation_reached st \<Longrightarrow>
         activation_reached (snd (cancel_channel_subscription (Some ch) fd st))"
proof -
  let ?l = "logs (snd (cancel_channel_subscription (Some ch) fd st))"
  have eq: "snd (cancel_channel_subscription (Some ch) fd st) = (snd (unsubscribe fd ch st))\<lparr>logs := ?l\<rparr>"
    using ch by (rule cancel_step_unsubscribe)
  have "registry_ok (snd (unsubscribe fd ch st))"
    using apply_op_registry_ok [of st "Unsubscribe fd ch" "\<lambda>cb h. 0"] ok ch by simp
  then have "registry_ok ((snd (unsubscribe fd ch st))\<lparr>logs := ?l\<rparr>)"
    by (simp only: activation_logs)
  then show "registry_ok (snd (cancel_channel_subscription (Some ch) fd st))"
    by (subst eq)
  {
    assume "activation_bound st"
    with ok have "activation_bound (snd (unsubscribe fd ch st))"
      using ch by (rule unsubscribe_bound)
    then have "activation_bound ((snd (unsubscribe fd ch st))\<lparr>logs := ?l\<rparr>)"
      by (simp only: activation_logs)
    then show "activation_bound (snd (cancel_channel_subscription (Some ch) fd st))"
      by (subst eq)
  }
  {
    assume "activation_reached st"
    with ok have "activation_reached (snd (unsubscribe fd ch st))"
      using ch by (rule unsubscribe_reached)
    then have "activation_reached ((snd (unsubscribe fd ch st))\<lparr>logs := ?l\<rparr>)"
      by (simp only: activation_logs)
    then show "activation_reached (snd (cancel_channel_subscription (Some ch) fd st))"
      by (subst eq)
  }
qed

lemma cancel_loop_preserves:
  "registry_ok st \<Longrightarrow> \<forall>i\<in>set is. i < length (channels st) \<Longrightarrow>
   (activation_bound st \<longrightarrow> activation_bound (cancel_subscriber_loop fd is st)) \<and>
   (activation_reached st \<longrightarrow> activation_reached (cancel_subscriber_loop fd is st))"
proof (induction "is" arbitrary: st)
  case Nil
  then show ?case by simp
next
  case (Cons i "is")
  let ?st1 = "snd (cancel_channel_subscription (Some i) fd st)"
  have i: "i < length (channels st)" using Cons.prems(2) by simp
  note step = cancel_step_preserves [OF Cons.prems(1) i, of fd]
  have "length (channels ?st1) = length (channels st)"
    using i by (simp add: cancel_step_channels)
  then have "\<forall>k\<in>set is. k < length (channels ?st1)" using Cons.prems(2) by simp
  from Cons.IH [OF step(1) this] step(2,3) show ?case by simp
qed

lemma nerd_cancel_subscriber_preserves:
  assumes "registry_ok st"
  shows "activation_bound st \<Longrightarrow> activation_bound (snd (nerd_cancel_subscriber fd st))"
    and "activation_reached st \<Longrightarrow> activation_reached (snd (nerd_cancel_subscriber fd st))"
proof -
  have "\<forall>i\<in>set [0..<length (channels st)]. i < length (channels st)" by simp
  note loop = cancel_loop_preserves [OF assms this, of fd]
  show "activation_bound st \<Longrightarrow> activation_bound (snd (nerd_cancel_subscriber fd st))"
    using loop
    by (simp add: nerd_cancel_subscriber_def Let_def iobroker_close_def activation_bound_def)
  show "activation_reached st \<Longrightarrow> activation_reached (snd (nerd_cancel_subscriber fd st))"
    using loop
    by (simp add: nerd_cancel_subscriber_def Let_def iobroker_close_def activation_reached_def)
qed

lemma apply_op_bound:
  assumes "registry_ok st" and "activation_bound st" and "op_in_range (length (channels st)) op"
  shows "activation_bound (apply_op rr op st)"
proof (cases op)
  case (Subscribe fd ch fmt)
  then show ?thesis using assms by (simp add: subscribe_bound)
next
  case (Unsubscribe fd ch)
  then show ?thesis using assms by (simp add: unsubscribe_bound)
next
  case (Cancel_subscriber fd)
  then show ?thesis using assms by (simp add: nerd_cancel_subscriber_preserves)
qed

lemma register_calls_accepted:
  "\<forall>call\<in>set (register_calls rr c).
      case call of Neb_register cb h \<Rightarrow> rr cb h = 0 | Neb_deregister cb h \<Rightarrow> True \<Longrightarrow>
   \<forall>cb\<in>set (attempted rr (handler c) (callbacks c)). rr cb (handler c) = 0"
  by (simp add: register_calls_def)

lemma apply_op_reached:
  assumes "registry_ok st" and "activation_reached st"
    and "op_in_range (length (channels st)) op"
    and "registrations_accepted rr [op] st"
  shows "activation_reached (apply_op rr op st)"
proof (cases op)
  case (Subscribe fd ch fmt)
  have "subscriptions (channels st ! ch) = [] \<longrightarrow>
        (\<forall>cb\<in>set (attempted rr (handler (channels st ! ch)) (callbacks (channels st ! ch))).
           rr cb (handler (channels st ! ch)) = 0)"
    using assms(4) Subscribe register_calls_accepted [of rr "channels st ! ch"]
    by (simp add: registrations_accepted_def)
  then show ?thesis using Subscribe assms(2,3) by (simp add: subscribe_reached)
next
  case (Unsubscribe fd ch)
  then show ?thesis using assms by (simp add: unsubscribe_reached)
next
  case (Cancel_subscriber fd)
  then show ?thesis using assms by (simp add: nerd_cancel_subscriber_preserves)
qed

lemma leaves_empty_without_sd: "leaves_empty fd (without_sd fd c) = leaves_empty fd c"
  by (auto simp: leaves_empty_def without_sd_def)

lemma deregister_calls_without_sd: "deregister_calls (without_sd fd c) = deregister_calls c"
  by (simp add: deregister_calls_def without_sd_def)

lemma cancel_loop_neb_calls:
  "\<forall>i\<in>set is. i < length (channels st) \<Longrightarrow>
   neb_calls (cancel_subscriber_loop fd is st) =
     neb_calls st @
     concat (map (\<lambda>i. if leaves_empty fd (channels st ! i)
                        then deregister_calls (channels st ! i) else []) is)"
proof (induction "is" arbitrary: st)
  case Nil
  then show ?case by simp
next
  case (Cons i "is")
  let ?st1 = "snd (cancel_channel_subscription (Some i) fd st)"
  let ?g = "\<lambda>c. if leaves_empty fd c then deregister_calls c else []"
  have i: "i < length (channels st)" using Cons.prems by simp
  have ch1: "channels ?st1 = (channels st)[i := without_sd fd (channels st ! i)]"
    using i by (rule cancel_step_channels)
  have same: "?g (channels ?st1 ! k) = ?g (channels st ! k)" if "k < length (channels st)" for k
    using that i
    by (simp add: ch1 nth_list_update leaves_empty_without_sd deregister_calls_without_sd)
  have "\<forall>k\<in>set is. k < length (channels ?st1)" using Cons.prems by (simp add: ch1)
  from Cons.IH [OF this]
  have "neb_calls (cancel_subscriber_loop fd is ?st1) =
          neb_calls ?st1 @ concat (map (\<lambda>k. ?g (channels ?st1 ! k)) is)" .
  also have "map (\<lambda>k. ?g (channels ?st1 ! k)) is = map (\<lambda>k. ?g (channels st ! k)) is"
    using Cons.prems same by (intro map_cong) simp_all
  finally show ?case
    using i by (simp add: cancel_step_neb_calls leaves_empty_def)
qed

lemma nerd_cancel_subscriber_neb_calls:
  "neb_calls (snd (nerd_cancel_subscriber fd st)) =
     neb_calls st @
     concat (map (\<lambda>c. if leaves_empty fd c then deregister_calls c else []) (channels st))"
proof -
  let ?g = "\<lambda>c. if leaves_empty fd c then deregister_calls c else []"
  have "map (\<lambda>i. ?g (channels st ! i)) [0..<length (channels st)] = map ?g (channels st)"
    by (rule nth_equalityI) simp_all
  then show ?thesis
    by (simp add: nerd_cancel_subscriber_def Let_def iobroker_close_def cancel_loop_neb_calls)
qed

lemma apply_op_neb_calls:
  assumes "op_in_range (length (channels st)) op"
  shows "neb_calls (apply_op rr op st) = neb_calls st @ issued rr op st"
proof (cases op)
  case (Subscribe fd ch fmt)
  then show ?thesis by (simp add: subscribe_broker)
next
  case (Unsubscribe fd ch)
  then show ?thesis using assms by (simp add: unsubscribe_broker)
next
  case (Cancel_subscriber fd)
  then show ?thesis by (simp add: nerd_cancel_subscriber_neb_calls)
qed

lemma run_ops_neb_calls:
  "\<forall>op\<in>set ops. op_in_range (length (channels st)) op \<Longrightarrow>
   neb_calls (run_ops rr ops st) = neb_calls st @ issued_all rr ops st"
proof (induction ops arbitrary: st)
  case Nil
  then show ?case by simp
next
  case (Cons op ops)
  have r: "op_in_range (length (channels st)) op" using Cons.prems by simp
  have "\<forall>x\<in>set ops. op_in_range (length (channels (apply_op rr op st))) x"
    using Cons.prems by (simp add: apply_op_length [OF r])
  from Cons.IH [OF this] show ?case
    by (simp add: apply_op_neb_calls [OF r])
qed

lemma run_ops_bound:
  "\<forall>op\<in>set ops. op_in_range (length (channels st)) op \<Longrightarrow>
   registry_ok st \<Longrightarrow> activation_bound st \<Longrightarrow> activation_bound (run_ops rr ops st)"
proof (induction ops arbitrary: st)
  case Nil
  then show ?case by simp
next
  case (Cons op ops)
  let ?st1 = "apply_op rr op st"
  have r: "op_in_range (length (channels st)) op" using Cons.prems(1) by simp
  have rest: "\<forall>x\<in>set ops. op_in_range (length (channels ?st1)) x"
    using Cons.prems(1) by (simp add: apply_op_length [OF r])
  have ok1: "registry_ok ?st1" using r Cons.prems(2) by (rule apply_op_registry_ok)
  have b1: "activation_bound ?st1" using Cons.prems(2,3) r by (rule apply_op_bound)
  from Cons.IH [OF rest ok1 b1] show ?case by simp
qed

lemma registrations_accepted_Cons:
  "registrations_accepted rr (op # ops) st =
     (registrations_accepted rr [op] st \<and> registrations_accepted rr ops (apply_op rr op st))"
  by (auto simp: registrations_accepted_def)

lemma run_ops_reached:
  "\<forall>op\<in>set ops. op_in_range (length (channels st)) op \<Longrightarrow>
   registry_ok st \<Longrightarrow> activation_reached st \<Longrightarrow> registrations_accepted rr ops st \<Longrightarrow>
   activation_reached (run_ops rr ops st)"
proof (induction ops arbitrary: st)
  case Nil
  then show ?case by simp
next
  case (Cons op ops)
  let ?st1 = "apply_op rr op st"
  have r: "op_in_range (length (channels st)) op" using Cons.prems(1) by simp
  have rest: "\<forall>x\<in>set ops. op_in_range (length (channels ?st1)) x"
    using Cons.prems(1) by (simp add: apply_op_length [OF r])
  have acc: "registrations_accepted rr [op] st" "registrations_accepted rr ops ?st1"
    using Cons.prems(4) registrations_accepted_Cons [of rr op ops st] by blast+
  have ok1: "registry_ok ?st1" using r Cons.prems(2) by (rule apply_op_registry_ok)
  have r1: "activation_reached ?st1" using Cons.prems(2,3) r acc(1) by (rule apply_op_reached)
  from Cons.IH [OF rest ok1 r1 acc(2)] show ?case by simp
qed

lemma activation_inv_member:
  assumes "activation_inv st" and "c \<in> set (channels st)" and "cb \<in> set (callbacks c)"
  shows "((cb, handler c) \<in> set (neb_table st)) = (subscriptions c \<noteq> [])"
proof -
  have "count_list (neb_table st) (cb, handler c) =
          (if subscriptions c = [] then 0 else count_list (callbacks c) cb)"
    using assms by (simp add: activation_inv_def)
  moreover have "count_list (callbacks c) cb \<noteq> 0" using assms(3) by (simp add: count_list_0_iff)
  ultimately have "(count_list (neb_table st) (cb, handler c) = 0) = (subscriptions c = [])"
    by simp
  then show ?thesis by (auto simp: count_list_0_iff)
qed

text \<open>
  C1, as the code has it. For every run of subscribe, unsubscribe and cancel-subscriber
  operations on channels of the registry, whatever the broker answers: the calls made to
  the broker are exactly, for each subscribe that finds the list empty, the registrations
  of the channel's callbacks in order up to the first refused, and for each unsubscribe or
  cancellation that leaves a list empty (also one that was empty before), the
  deregistrations of that channel's callbacks. In a registry where no two channels declare
  the same (callback type, handler) pair, a channel without subscriber never has a
  callback registered and none is registered more often than declared. If moreover every
  registration that the run issues is accepted, then after the run each declared callback
  of each channel is registered if and only if the channel's list is non-empty.
\<close>

theorem activation_follows_subscribers:
  assumes "\<forall>op\<in>set ops. op_in_range (length (channels st)) op"
  shows "neb_calls (run_ops rr ops st) = neb_calls st @ issued_all rr ops st \<and>
         (registry_ok st \<and> activation_bound st \<longrightarrow> activation_bound (run_ops rr ops st)) \<and>
         (registry_ok st \<and> activation_inv st \<and> registrations_accepted rr ops st \<longrightarrow>
            activation_inv (run_ops rr ops st) \<and>
            (\<forall>c\<in>set (channels (run_ops rr ops st)). \<forall>cb\<in>set (callbacks c).
               ((cb, handler c) \<in> set (neb_table (run_ops rr ops st))) = (subscriptions c \<noteq> [])))"
proof (intro conjI impI)
  show "neb_calls (run_ops rr ops st) = neb_calls st @ issued_all rr ops st"
    using assms by (rule run_ops_neb_calls)
next
  assume "registry_ok st \<and> activation_bound st"
  then show "activation_bound (run_ops rr ops st)"
    using assms by (simp add: run_ops_bound)
next
  assume h: "registry_ok st \<and> activation_inv st \<and> registrations_accepted rr ops st"
  then have "activation_bound (run_ops rr ops st)" "activation_reached (run_ops rr ops st)"
    using assms by (simp_all add: activation_inv_iff run_ops_bound run_ops_reached)
  then show inv: "activation_inv (run_ops rr ops st)" by (simp add: activation_inv_iff)
  show "\<forall>c\<in>set (channels (run_ops rr ops st)). \<forall>cb\<in>set (callbacks c).
          ((cb, handler c) \<in> set (neb_table (run_ops rr ops st))) = (subscriptions c \<noteq> [])"
    using inv by (simp add: activation_inv_member)
qed

theorem activation_follows_subscribers_witness:
  "neb_calls (run_ops (\<lambda>cb h. if cb = 6 then -1 else 0)
      [Subscribe 5 0 None, Subscribe 6 0 None, Unsubscribe 5 0, Cancel_subscriber 6,
       Unsubscribe 6 0, Subscribe 4 0 (Some ''x'')] init_state) =
     [Neb_register 7 1, Neb_deregister 7 1, Neb_deregister 6 2, Neb_deregister 7 1,
      Neb_register 7 1] \<and>
   activation_bound (run_ops (\<lambda>cb h. if cb = 6 then -1 else 0)
      [Subscribe 5 0 None, Subscribe 6 0 None, Unsubscribe 5 0, Cancel_subscriber 6,
       Unsubscribe 6 0, Subscribe 4 0 (Some ''x'')] init_state) \<and>
   activation_inv (run_ops (\<lambda>cb h. if cb = 6 then -1 else 0)
      [Subscribe 5 0 None, Subscribe 6 0 None, Unsubscribe 5 0, Cancel_subscriber 6,
       Unsubscribe 6 0, Subscribe 4 0 (Some ''x'')] init_state) \<and>
   neb_calls (run_ops (\<lambda>cb h. -1) [Subscribe 5 1 None, Unsubscribe 5 1] init_state) =
     [Neb_register 6 2, Neb_deregister 6 2] \<and>
   activation_bound (run_ops (\<lambda>cb h. -1) [Subscribe 5 1 None, Unsubscribe 5 1] init_state)"
  using activation_follows_subscribers [of
      "[Subscribe 5 0 None, Subscribe 6 0 None, Unsubscribe 5 0, Cancel_subscriber 6,
        Unsubscribe 6 0, Subscribe 4 0 (Some ''x'')]" init_state "\<lambda>cb h. if cb = 6 then -1 else 0"]
    activation_follows_subscribers [of "[Subscribe 5 1 None, Unsubscribe 5 1]" init_state "\<lambda>cb h. -1"]
  by (simp add: registry_ok_def declared_def activation_inv_def activation_bound_def
        registrations_accepted_def init_state_def subscribe_channels
        unsubscribe_channels nerd_cancel_subscriber_channels without_sd_def leaves_empty_def
        register_calls_def deregister_calls_def attempted_def)

text \<open>
  C1 as stated fails three ways: when a registration fails the list is non-empty and the
  callback unregistered; cancelling a descriptor in a registry without subscribers
  deregisters the callbacks of both channels, though no list became empty; and when two
  channels share handler and callback type, the first subscriber of one registers the
  callback of the other, whose list is empty.
\<close>

theorem activation_counterexample:
  "subscriptions (channels (snd (subscribe (\<lambda>cb h. -1) 5 0 None init_state)) ! 0) =
     [subscr_of 5 0] \<and>
   callbacks (channels (snd (subscribe (\<lambda>cb h. -1) 5 0 None init_state)) ! 0) = [7] \<and>
   neb_table (snd (subscribe (\<lambda>cb h. -1) 5 0 None init_state)) = [] \<and>
   map subscriptions (channels init_state) = [[], []] \<and>
   neb_calls (snd (nerd_cancel_subscriber 5 init_state)) =
     [Neb_deregister 7 1, Neb_deregister 6 2] \<and>
   subscriptions (channels (snd (subscribe (\<lambda>cb h. 0) 8 1 None shared_state)) ! 0) = [] \<and>
   callbacks (channels (snd (subscribe (\<lambda>cb h. 0) 8 1 None shared_state)) ! 0) = [7] \<and>
   handler (channels (snd (subscribe (\<lambda>cb h. 0) 8 1 None shared_state)) ! 0) = 1 \<and>
   neb_table (snd (subscribe (\<lambda>cb h. 0) 8 1 None shared_state)) = [(7, 1)]"
  by (simp add: init_state_def shared_state_def subscribe_def Let_def subscr_of_def
        nerd_register_channel_callbacks_def neb_register_callback_def nm_log_def
        prepend_object_to_objectlist_def set_subscriptions_def
        nerd_cancel_subscriber_neb_calls leaves_empty_def deregister_calls_def)

end
